theory Spec2Isabelle
  imports Complex_Main "HOL-Library.AList"
begin

section \<open>JavaScript values\<close>

text \<open>
  Plans, steps and parameters are values produced by \<^verbatim>\<open>JSON.parse\<close>. A property that is
  absent reads as \<^verbatim>\<open>undefined\<close>, modelled by \<open>None\<close>. Numbers are restricted to
  integers; strings are sequences of code units below 256. Objects keep their properties
  in insertion order.
\<close>

datatype json =
    JNull
  | JBool bool
  | JNum int
  | JStr string
  | JArr "json list"
  | JObj "(string \<times> json) list"

datatype js_error = TypeError

text \<open>JavaScript truthiness: \<^verbatim>\<open>undefined\<close>, \<^verbatim>\<open>null\<close>, \<^verbatim>\<open>false\<close>, \<^verbatim>\<open>0\<close> and
  \<^verbatim>\<open>""\<close> are falsy, every object and array is truthy.\<close>

fun truthy :: "json option \<Rightarrow> bool" where
  "truthy None = False"
| "truthy (Some JNull) = False"
| "truthy (Some (JBool b)) = b"
| "truthy (Some (JNum n)) = (n \<noteq> 0)"
| "truthy (Some (JStr s)) = (s \<noteq> [])"
| "truthy (Some (JArr xs)) = True"
| "truthy (Some (JObj kvs)) = True"

text \<open>\<^verbatim>\<open>typeof v === 'object'\<close> holds of \<^verbatim>\<open>null\<close>, arrays and objects.\<close>

fun typeof_object :: "json option \<Rightarrow> bool" where
  "typeof_object (Some JNull) = True"
| "typeof_object (Some (JArr xs)) = True"
| "typeof_object (Some (JObj kvs)) = True"
| "typeof_object v = False"

text \<open>Reading a named property of a value other than \<^verbatim>\<open>null\<close>. Only the names
  \<^verbatim>\<open>steps\<close>, \<^verbatim>\<open>actions\<close>, \<^verbatim>\<open>transaction_id\<close>, \<^verbatim>\<open>action\<close>, \<^verbatim>\<open>params\<close> and
  \<^verbatim>\<open>safety_check\<close> are read by the code below, and none of them is an own or inherited
  property of a parsed array, string, number or boolean. Reading a property of
  \<^verbatim>\<open>null\<close> throws; the callers test for it before they use \<open>get_prop\<close>.\<close>

fun get_prop :: "json \<Rightarrow> string \<Rightarrow> json option" where
  "get_prop (JObj kvs) k = map_of kvs k"
| "get_prop v k = None"

text \<open>Assigning a property: an existing key keeps its position, a new key goes last.
  Assignment to a property of a primitive is ignored (the scripts are not strict).\<close>

fun set_prop :: "json \<Rightarrow> string \<Rightarrow> json \<Rightarrow> json" where
  "set_prop (JObj kvs) k v = JObj (AList.update k v kvs)"
| "set_prop j k v = j"

subsection \<open>Strings\<close>

text \<open>\<^verbatim>\<open>String.prototype.includes\<close>: substring test.\<close>

fun starts_with :: "string \<Rightarrow> string \<Rightarrow> bool" where
  "starts_with s [] = True"
| "starts_with [] (k # ks) = False"
| "starts_with (c # cs) (k # ks) = (c = k \<and> starts_with cs ks)"

fun str_includes :: "string \<Rightarrow> string \<Rightarrow> bool" where
  "str_includes [] k = (k = [])"
| "str_includes (c # cs) k = (starts_with (c # cs) k \<or> str_includes cs k)"

text \<open>\<^verbatim>\<open>String.prototype.toLowerCase\<close> on code units below 256: the letters A to Z and the
  Latin-1 capitals (0xC0 to 0xDE without the multiplication sign 0xD7) move up by 32.\<close>

definition toLowerChar :: "char \<Rightarrow> char" where
  "toLowerChar c =
     (let n = (of_char c :: nat)
      in if (65 \<le> n \<and> n \<le> 90) \<or> (192 \<le> n \<and> n \<le> 222 \<and> n \<noteq> 215)
         then char_of (n + 32) else c)"

definition toLowerCase :: "string \<Rightarrow> string" where
  "toLowerCase s = map toLowerChar s"

subsection \<open>JSON.stringify\<close>

definition digit_char :: "nat \<Rightarrow> char" where
  "digit_char d = char_of (48 + d)"

fun show_nat :: "nat \<Rightarrow> string" where
  "show_nat n = (if n < 10 then [digit_char n] else show_nat (n div 10) @ [digit_char (n mod 10)])"

definition show_int :: "int \<Rightarrow> string" where
  "show_int i = (if i < 0 then CHR ''-'' # show_nat (nat (- i)) else show_nat (nat i))"

definition hex_char :: "nat \<Rightarrow> char" where
  "hex_char d = (if d < 10 then char_of (48 + d) else char_of (87 + d))"

text \<open>Escaping inside a JSON string: the quote, the backslash, and the control
  characters below 0x20.\<close>

definition escape_char :: "char \<Rightarrow> string" where
  "escape_char c =
     (let n = (of_char c :: nat)
      in if n = 34 then [CHR 0x5C, CHR 0x22]
         else if n = 92 then [CHR 0x5C, CHR 0x5C]
         else if n = 8 then [CHR 0x5C, CHR ''b'']
         else if n = 12 then [CHR 0x5C, CHR ''f'']
         else if n = 10 then [CHR 0x5C, CHR ''n'']
         else if n = 13 then [CHR 0x5C, CHR ''r'']
         else if n = 9 then [CHR 0x5C, CHR ''t'']
         else if n < 32 then [CHR 0x5C, CHR ''u'', CHR ''0'', CHR ''0'', hex_char (n div 16), hex_char (n mod 16)]
         else [c])"

definition quote :: "string \<Rightarrow> string" where
  "quote s = CHR 0x22 # concat (map escape_char s) @ [CHR 0x22]"

fun join_comma :: "string list \<Rightarrow> string" where
  "join_comma [] = []"
| "join_comma [x] = x"
| "join_comma (x # y # ys) = x @ CHR '','' # join_comma (y # ys)"

definition member_str :: "string \<times> string \<Rightarrow> string" where
  "member_str kv = quote (fst kv) @ CHR '':'' # snd kv"

primrec stringify :: "json \<Rightarrow> string" where
  "stringify JNull = ''null''"
| "stringify (JBool b) = (if b then ''true'' else ''false'')"
| "stringify (JNum n) = show_int n"
| "stringify (JStr s) = quote s"
| "stringify (JArr xs) = CHR ''['' # join_comma (map stringify xs) @ [CHR '']'']"
| "stringify (JObj kvs) =
     CHR ''{'' # join_comma (map member_str (map (map_prod id stringify) kvs)) @ [CHR ''}'']"

section \<open>Plan validation (utils/schema.js)\<close>

definition ALLOWED_ACTIONS :: "string list" where
  "ALLOWED_ACTIONS =
     [''open_url'', ''click_element'', ''type_into'', ''press_key'', ''wait'', ''scroll_to'',
      ''select_option'', ''read_text'', ''go_back'', ''go_forward'', ''refresh'', ''close_tab'']"

definition DESTRUCTIVE_KEYWORDS :: "string list" where
  "DESTRUCTIVE_KEYWORDS =
     [''delete'', ''remove'', ''reset'', ''format'', ''purchase'', ''buy'', ''unsubscribe'',
      ''deactivate'', ''terminate'', ''cancel subscription'', ''erase'']"

definition MAX_STEPS :: nat where
  "MAX_STEPS = 10"

text \<open>Each message pushed onto \<^verbatim>\<open>errors\<close>, with the values interpolated into it.
  Step numbers are the one-based \<^verbatim>\<open>i + 1\<close> of the source.\<close>

datatype verror =
    NotObject
  | NoStepsArray
  | TooManySteps nat
  | NoSteps
  | MissingAction nat
  | UnknownAction nat "json option"
  | InvalidParams nat

record validation =
  valid :: bool
  errors :: "verror list"
  vplan :: "json option"

text \<open>\<^verbatim>\<open>ALLOWED_ACTIONS.includes(step.action)\<close> compares with strict equality, so only a
  string can be a member.\<close>

fun allowed_action :: "json option \<Rightarrow> bool" where
  "allowed_action (Some (JStr a)) = (a \<in> set ALLOWED_ACTIONS)"
| "allowed_action v = False"

text \<open>The errors one step adds. A step without a truthy \<^verbatim>\<open>action\<close> gets the one
  message and the loop continues with the next step; otherwise the action and the
  parameters are checked independently.\<close>

definition step_errors :: "nat \<Rightarrow> json \<Rightarrow> verror list" where
  "step_errors i step =
     (if \<not> truthy (get_prop step ''action'') then [MissingAction (i + 1)]
      else (if \<not> allowed_action (get_prop step ''action'')
            then [UnknownAction (i + 1) (get_prop step ''action'')] else [])
         @ (if \<not> truthy (get_prop step ''params'') \<or> \<not> typeof_object (get_prop step ''params'')
            then [InvalidParams (i + 1)] else []))"

text \<open>The loop over the steps, from index \<open>i\<close>. \<^verbatim>\<open>step.action\<close> on a \<^verbatim>\<open>null\<close> step
  throws a TypeError that nothing catches.\<close>

fun validate_steps :: "nat \<Rightarrow> json list \<Rightarrow> verror list \<Rightarrow> js_error + verror list" where
  "validate_steps i [] errs = Inr errs"
| "validate_steps i (step # rest) errs =
     (if step = JNull then Inl TypeError
      else validate_steps (i + 1) rest (errs @ step_errors i step))"

text \<open>\<^verbatim>\<open>plan.steps || plan.actions\<close>\<close>

definition plan_steps :: "json \<Rightarrow> json option" where
  "plan_steps p = (if truthy (get_prop p ''steps'') then get_prop p ''steps'' else get_prop p ''actions'')"

text \<open>\<^verbatim>\<open>validatePlan(plan)\<close>. The argument \<open>uuid\<close> is the identifier that
  \<^verbatim>\<open>crypto.randomUUID()\<close> (or the \<^verbatim>\<open>txn-\<close> fallback) would produce.\<close>

definition validatePlan :: "string \<Rightarrow> json option \<Rightarrow> js_error + validation" where
  "validatePlan uuid plan =
     (case plan of
        None \<Rightarrow> Inr \<lparr>valid = False, errors = [NotObject], vplan = None\<rparr>
      | Some p \<Rightarrow>
          if \<not> truthy plan \<or> \<not> typeof_object plan
          then Inr \<lparr>valid = False, errors = [NotObject], vplan = None\<rparr>
          else
            (case plan_steps p of
               Some (JArr steps) \<Rightarrow>
                 let p1 = set_prop p ''steps'' (JArr steps);
                     p2 = (if \<not> truthy (get_prop p1 ''transaction_id'')
                           then set_prop p1 ''transaction_id'' (JStr uuid) else p1)
                 in if length steps > MAX_STEPS
                    then Inr \<lparr>valid = False, errors = [TooManySteps (length steps)], vplan = None\<rparr>
                    else if length steps = 0
                    then Inr \<lparr>valid = False, errors = [NoSteps], vplan = None\<rparr>
                    else
                      (case validate_steps 0 steps [] of
                         Inl e \<Rightarrow> Inl e
                       | Inr errs \<Rightarrow>
                           Inr \<lparr>valid = (length errs = 0), errors = errs,
                                vplan = (if length errs = 0 then Some p2 else None)\<rparr>)
             | _ \<Rightarrow> Inr \<lparr>valid = False, errors = [NoStepsArray], vplan = None\<rparr>))"

section \<open>The safety layer (utils/schema.js)\<close>

text \<open>A violation message: the one-based step number and the keyword found.\<close>

datatype violation = Violation nat string

record safety_result =
  safe :: bool
  violations :: "violation list"
  splan :: json

text \<open>\<^verbatim>\<open>step.params || {}\<close>\<close>

definition params_or_empty :: "json \<Rightarrow> json" where
  "params_or_empty step =
     (case get_prop step ''params'' of
        None \<Rightarrow> JObj []
      | Some v \<Rightarrow> if truthy (Some v) then v else JObj [])"

definition params_str :: "json \<Rightarrow> string" where
  "params_str step = toLowerCase (stringify (params_or_empty step))"

text \<open>The loop over \<^verbatim>\<open>DESTRUCTIVE_KEYWORDS\<close> for step \<open>i\<close>: every keyword found pushes a
  violation and assigns \<^verbatim>\<open>'blocked'\<close>.\<close>

fun keyword_loop :: "nat \<Rightarrow> string \<Rightarrow> string list \<Rightarrow> violation list \<times> json \<Rightarrow> violation list \<times> json" where
  "keyword_loop i paramsStr [] acc = acc"
| "keyword_loop i paramsStr (keyword # rest) (vs, step) =
     (if str_includes paramsStr keyword
      then keyword_loop i paramsStr rest
             (vs @ [Violation (i + 1) keyword], set_prop step ''safety_check'' (JStr ''blocked''))
      else keyword_loop i paramsStr rest (vs, step))"

text \<open>\<^verbatim>\<open>if (!step.safety_check || step.safety_check !== 'blocked') step.safety_check = 'passed'\<close>\<close>

definition mark_passed :: "json \<Rightarrow> json" where
  "mark_passed step =
     (if \<not> truthy (get_prop step ''safety_check'')
         \<or> get_prop step ''safety_check'' \<noteq> Some (JStr ''blocked'')
      then set_prop step ''safety_check'' (JStr ''passed'') else step)"

definition check_step :: "nat \<Rightarrow> json \<Rightarrow> violation list \<Rightarrow> violation list \<times> json" where
  "check_step i step vs =
     (let (vs', step') = keyword_loop i (params_str step) DESTRUCTIVE_KEYWORDS (vs, step)
      in (vs', mark_passed step'))"

text \<open>The second loop of \<^verbatim>\<open>runSafetyCheck\<close>, from index \<open>i\<close>; it returns the violations and
  the steps as they are afterwards.\<close>

fun safety_loop :: "nat \<Rightarrow> json list \<Rightarrow> violation list \<Rightarrow> violation list \<times> json list" where
  "safety_loop i [] vs = (vs, [])"
| "safety_loop i (step # rest) vs =
     (let (vs1, step') = check_step i step vs;
          (vs2, rest') = safety_loop (i + 1) rest vs1
      in (vs2, step' # rest'))"

text \<open>\<^verbatim>\<open>runSafetyCheck(plan)\<close>. The first loop of the source fills a local set of host names
  that is never read; all it can do is throw, on a \<^verbatim>\<open>null\<close> step or on \<^verbatim>\<open>steps\<close> that
  cannot be iterated. A string for \<^verbatim>\<open>steps\<close> is iterated character by character, each
  character serialising its absent parameters as the empty object.\<close>

definition runSafetyCheck :: "json \<Rightarrow> js_error + safety_result" where
  "runSafetyCheck p =
     (case get_prop p ''steps'' of
        Some (JArr ss) \<Rightarrow>
          if JNull \<in> set ss then Inl TypeError
          else (let (vs, ss') = safety_loop 0 ss []
                in Inr \<lparr>safe = (length vs = 0), violations = vs,
                        splan = set_prop p ''steps'' (JArr ss')\<rparr>)
      | Some (JStr str) \<Rightarrow> Inr \<lparr>safe = True, violations = [], splan = p\<rparr>
      | _ \<Rightarrow> Inl TypeError)"

section \<open>The orchestrator (background service worker)\<close>

subsection \<open>State\<close>

record criterion =
  ctype :: string
  cvalue :: string

text \<open>A trigger rule. An absent \<^verbatim>\<open>id\<close> is the empty string (both are falsy); an absent
  \<^verbatim>\<open>criteria\<close> is \<open>None\<close>.\<close>

record rule =
  rule_id :: string
  criteria :: "criterion option"

record rule_state =
  active :: bool
  lastTriggered :: int

record execution =
  transactionId :: "string option"
  steps :: "json list"
  currentStep :: nat

record state =
  wsConnected :: bool
  reconnectAttempts :: nat
  registeredRules :: "rule list"
  triggeredRulesState :: "(string \<times> rule_state) list"
  processedTxIds :: "string list"
  killSwitchActive :: bool
  currentExecution :: "execution option"

definition MAX_RECONNECT_ATTEMPTS :: nat where
  "MAX_RECONNECT_ATTEMPTS = 50"

definition BASE_RECONNECT_DELAY :: rat where
  "BASE_RECONNECT_DELAY = 2000"

definition RULE_COOLDOWN_MS :: int where
  "RULE_COOLDOWN_MS = 30000"

subsection \<open>What the handlers emit\<close>

datatype log_entry =
    L_connected
  | L_disconnected
  | L_max_reconnect
  | L_register_invalid
  | L_registered "rule list"
  | L_rule_triggered string
  | L_rule_cooldown string
  | L_rule_inactive string
  | L_blocked_kill_switch
  | L_no_prompt
  | L_duplicate string
  | L_prompt_received string string
  | L_chatbot_response "string option"
  | L_json_error
  | L_validation_errors "verror list"
  | L_blocked "violation list"
  | L_plan_validated nat
  | L_sending_desktop nat
  | L_executing_browser nat
  | L_halted
  | L_step nat nat "json option"
  | L_step_failed nat string
  | L_all_executed nat
  | L_kill_switch_activated

text \<open>Messages for the desktop agent. Step numbers in them are one-based, as the source
  writes \<^verbatim>\<open>i + 1\<close>.\<close>

datatype desktop_message =
    D_rule_triggered string
  | D_status_planning string
  | D_status_error_json "string option"
  | D_status_error_validation "string option" "verror list"
  | D_status_blocked "string option" "violation list"
  | D_execute_desktop_actions "string option" "json list"
  | D_status_executing "string option" nat
  | D_status_killed "string option" nat nat
  | D_status_step "string option" nat nat "json option"
  | D_result_completed "string option" nat
  | D_kill_switch_ack

text \<open>Messages for the popup. Step indices in them are zero-based.\<close>

datatype popup_message =
    P_status_connected
  | P_status_disconnected
  | P_execution_start string string
  | P_chatbot_raw
  | P_execution_error_json
  | P_execution_error_validation "verror list"
  | P_execution_blocked "violation list"
  | P_plan_validated json
  | P_execution_killed nat
  | P_step_executing nat nat "json option" "json option"
  | P_step_complete nat bool "string option"
  | P_execution_complete "string option"
  | P_kill_switch

datatype event =
    AddLog log_entry
  | SendToDesktop desktop_message
  | BroadcastToPopup popup_message
  | AlarmReconnect rat
  | InjectPrompt string string
  | Uncaught js_error

subsection \<open>Reconnection\<close>

text \<open>\<^verbatim>\<open>scheduleReconnect()\<close>. The delay is computed in double precision in the source; the
  products \<^verbatim>\<open>2000 * 1.5^n\<close> below the ceiling (\<open>n \<le> 6\<close>) are exact doubles and every later
  one exceeds the ceiling, so exact rationals give the same values. The alarm is created
  with \<^verbatim>\<open>delayInMinutes: delay / 60000\<close>; the event records \<^verbatim>\<open>delay\<close>, in milliseconds.\<close>

definition scheduleReconnect :: "state \<Rightarrow> state \<times> event list" where
  "scheduleReconnect s =
     (if reconnectAttempts s \<ge> MAX_RECONNECT_ATTEMPTS then (s, [AddLog L_max_reconnect])
      else (let delay = min (BASE_RECONNECT_DELAY * (3 / 2) ^ reconnectAttempts s) 30000
            in (s\<lparr>reconnectAttempts := reconnectAttempts s + 1\<rparr>, [AlarmReconnect delay])))"

text \<open>The \<^verbatim>\<open>onopen\<close> and \<^verbatim>\<open>onclose\<close> callbacks of the socket.\<close>

definition ws_onopen :: "state \<Rightarrow> state \<times> event list" where
  "ws_onopen s =
     (s\<lparr>wsConnected := True, reconnectAttempts := 0\<rparr>,
      [BroadcastToPopup P_status_connected, AddLog L_connected])"

definition ws_onclose :: "state \<Rightarrow> state \<times> event list" where
  "ws_onclose s =
     (let (s', evs) = scheduleReconnect (s\<lparr>wsConnected := False\<rparr>)
      in (s', [BroadcastToPopup P_status_disconnected, AddLog L_disconnected] @ evs))"

subsection \<open>Trigger rules\<close>

text \<open>\<^verbatim>\<open>handleRegisterTriggers(payload)\<close>; the argument is \<^verbatim>\<open>payload.rules\<close>, \<open>None\<close> when it
  is not an array.\<close>

definition handleRegisterTriggers :: "rule list option \<Rightarrow> state \<Rightarrow> state \<times> event list" where
  "handleRegisterTriggers rules s =
     (case rules of
        None \<Rightarrow> (s, [AddLog L_register_invalid])
      | Some rs \<Rightarrow> (s\<lparr>registeredRules := rs, triggeredRulesState := []\<rparr>, [AddLog (L_registered rs)]))"

definition fireRuleTrigger :: "string \<Rightarrow> event list" where
  "fireRuleTrigger ruleId = [AddLog (L_rule_triggered ruleId), SendToDesktop (D_rule_triggered ruleId)]"

definition rule_matches :: "string \<Rightarrow> string \<Rightarrow> criterion \<Rightarrow> bool" where
  "rule_matches url category c =
     (if ctype c = ''category'' then category = cvalue c
      else if ctype c = ''url_contains''
      then str_includes (toLowerCase url) (toLowerCase (cvalue c))
      else False)"

text \<open>The first loop of \<^verbatim>\<open>checkRulesAgainstUrl\<close>, over the registered rules. It threads the
  state map, the matched identifiers and the emitted events.\<close>

fun match_loop ::
  "string \<Rightarrow> string \<Rightarrow> int \<Rightarrow> rule list
   \<Rightarrow> (string \<times> rule_state) list \<times> string list \<times> event list
   \<Rightarrow> (string \<times> rule_state) list \<times> string list \<times> event list" where
  "match_loop url category now [] acc = acc"
| "match_loop url category now (r # rest) (st, matched, evs) =
     (case criteria r of
        None \<Rightarrow> match_loop url category now rest (st, matched, evs)
      | Some c \<Rightarrow>
          if rule_id r = [] then match_loop url category now rest (st, matched, evs)
          else if rule_matches url category c
          then (case map_of st (rule_id r) of
                  None \<Rightarrow>
                    match_loop url category now rest
                      (AList.update (rule_id r) \<lparr>active = True, lastTriggered = now\<rparr> st,
                       matched @ [rule_id r], evs @ fireRuleTrigger (rule_id r))
                | Some rstate \<Rightarrow>
                    if active rstate
                    then match_loop url category now rest (st, matched @ [rule_id r], evs)
                    else if now - lastTriggered rstate \<ge> RULE_COOLDOWN_MS
                    then match_loop url category now rest
                           (AList.update (rule_id r) (rstate\<lparr>active := True, lastTriggered := now\<rparr>) st,
                            matched @ [rule_id r], evs @ fireRuleTrigger (rule_id r))
                    else match_loop url category now rest
                           (st, matched @ [rule_id r], evs @ [AddLog (L_rule_cooldown (rule_id r))]))
          else match_loop url category now rest (st, matched, evs))"

text \<open>The second loop: every rule with state that did not match and is active becomes
  inactive.\<close>

fun inactive_loop ::
  "string list \<Rightarrow> (string \<times> rule_state) list \<Rightarrow> (string \<times> rule_state) list \<times> event list" where
  "inactive_loop matched [] = ([], [])"
| "inactive_loop matched ((ruleId, rstate) # rest) =
     (let (rest', evs) = inactive_loop matched rest
      in if ruleId \<notin> set matched \<and> active rstate
         then ((ruleId, rstate\<lparr>active := False\<rparr>) # rest', AddLog (L_rule_inactive ruleId) # evs)
         else ((ruleId, rstate) # rest', evs))"

definition checkRulesAgainstUrl :: "string \<Rightarrow> string \<Rightarrow> int \<Rightarrow> state \<Rightarrow> state \<times> event list" where
  "checkRulesAgainstUrl url category now s =
     (if length (registeredRules s) = 0 then (s, [])
      else (let (st1, matched, evs1) =
                  match_loop url category now (registeredRules s) (triggeredRulesState s, [], []);
                (st2, evs2) = inactive_loop matched st1
            in (s\<lparr>triggeredRulesState := st2\<rparr>, evs1 @ evs2)))"

subsection \<open>Prompt requests and the transaction ledger\<close>

record payload =
  p_prompt :: "string option"
  p_text :: "string option"
  p_transaction_id :: "string option"
  p_transactionId :: "string option"

text \<open>\<^verbatim>\<open>a || b\<close> on optional strings: the first one that is present and not empty.\<close>

fun or_else :: "string option \<Rightarrow> string option \<Rightarrow> string option" where
  "or_else (Some a) b = (if a \<noteq> [] then Some a else b)"
| "or_else None b = b"

fun or_str :: "string option \<Rightarrow> string \<Rightarrow> string" where
  "or_str (Some a) b = (if a \<noteq> [] then a else b)"
| "or_str None b = b"

text \<open>\<^verbatim>\<open>handlePromptExecution(payload)\<close> up to the point where the prompt is handed to the
  chatbot tab, which the event \<open>InjectPrompt\<close> stands for. \<open>uuid\<close> is what
  \<^verbatim>\<open>crypto.randomUUID()\<close> returns. The ledger \<^verbatim>\<open>processedTxIds\<close> is a JavaScript
  \<^verbatim>\<open>Set\<close>, which iterates in insertion order: a list without repetition, oldest first.\<close>

definition handlePromptExecution :: "string \<Rightarrow> payload option \<Rightarrow> state \<Rightarrow> state \<times> event list" where
  "handlePromptExecution uuid pl s =
     (if killSwitchActive s then (s, [AddLog L_blocked_kill_switch])
      else
        (let userPrompt = or_str (or_else (Option.bind pl p_prompt) (Option.bind pl p_text)) []
         in if userPrompt = [] then (s, [AddLog L_no_prompt])
            else
              (let tid = or_str (or_else (Option.bind pl p_transaction_id)
                                   (Option.bind pl p_transactionId)) uuid
               in if tid \<in> set (processedTxIds s) then (s, [AddLog (L_duplicate tid)])
                  else
                    (let ids = processedTxIds s @ [tid];
                         ids' = (if length ids > 50 then tl ids else ids)
                     in (s\<lparr>processedTxIds := ids'\<rparr>,
                         [AddLog (L_prompt_received tid userPrompt),
                          BroadcastToPopup (P_execution_start tid userPrompt),
                          SendToDesktop (D_status_planning tid),
                          InjectPrompt tid userPrompt])))))"

subsection \<open>Kill switch\<close>

definition handleKillSwitch :: "state \<Rightarrow> state \<times> event list" where
  "handleKillSwitch s =
     (s\<lparr>killSwitchActive := True\<rparr>,
      [AddLog L_kill_switch_activated, BroadcastToPopup P_kill_switch, SendToDesktop D_kill_switch_ack])"

subsection \<open>The browser action executor\<close>

text \<open>The body of the \<^verbatim>\<open>try\<close> block interprets one step through the browser's tab and
  scripting interfaces. It is the action runner: from a step and the browser (the world
  \<open>'w\<close>, which includes the active tab) it gives the message of the error it threw, if
  any, and the browser afterwards.\<close>

type_synonym 'w runner = "json \<Rightarrow> 'w \<Rightarrow> string option \<times> 'w"

text \<open>The worker is single-threaded, but every \<^verbatim>\<open>await\<close> inside a step lets it handle
  whatever else arrives before the step resumes: a kill message, a new rule set, an
  observation, a prompt, or another answer of the chatbot, which starts a second run of
  the executor on the same variables. An interference says, for the step with index \<open>i\<close>,
  what is done to the state and the browser while that step is suspended, and which
  events that emits.\<close>

type_synonym 'w interference = "nat \<Rightarrow> state \<times> 'w \<Rightarrow> state \<times> 'w \<times> event list"

text \<open>One iteration past the kill-switch test: the step is announced, the runner acts,
  the interference of the step takes place, and the outcome is reported.\<close>

definition run_step ::
  "'w runner \<Rightarrow> 'w interference \<Rightarrow> string option \<Rightarrow> nat \<Rightarrow> nat \<Rightarrow> json
   \<Rightarrow> state \<times> 'w \<times> event list \<Rightarrow> state \<times> 'w \<times> event list" where
  "run_step R I tid n i step = (\<lambda>(s, w, tr).
     (let tr1 = tr @ [AddLog (L_step (i + 1) n (get_prop step ''action'')),
                      BroadcastToPopup (P_step_executing i n (get_prop step ''action'')
                                          (get_prop step ''params'')),
                      SendToDesktop (D_status_step tid (i + 1) n (get_prop step ''action''))];
          (res, w1) = R step w;
          (s', w', ievs) = I i (s, w1)
      in (s', w',
          tr1 @ ievs @
          (case res of
             None \<Rightarrow> [BroadcastToPopup (P_step_complete i True None)]
           | Some msg \<Rightarrow> [AddLog (L_step_failed (i + 1) msg),
                          BroadcastToPopup (P_step_complete i False (Some msg))]))))"

text \<open>The \<^verbatim>\<open>for\<close> loop of \<^verbatim>\<open>executeBrowserPlan\<close> from index \<open>i\<close>, with \<open>n\<close> the number of
  steps of the whole run, and what follows the loop. Outside the \<^verbatim>\<open>try\<close> block,
  \<^verbatim>\<open>currentExecution.currentStep = i\<close> throws when the reference is \<^verbatim>\<open>null\<close>, which
  it is once a second run has ended while this one was suspended, and \<^verbatim>\<open>step.action\<close>
  throws on a \<^verbatim>\<open>null\<close> step.\<close>

fun exec_loop ::
  "'w runner \<Rightarrow> 'w interference \<Rightarrow> string option \<Rightarrow> nat \<Rightarrow> nat \<Rightarrow> json list
   \<Rightarrow> state \<times> 'w \<times> event list \<Rightarrow> state \<times> 'w \<times> event list" where
  "exec_loop R I tid n i [] (s, w, tr) =
     (s\<lparr>currentExecution := None\<rparr>, w,
      tr @ [AddLog (L_all_executed n), SendToDesktop (D_result_completed tid n),
            BroadcastToPopup (P_execution_complete tid)])"
| "exec_loop R I tid n i (step # rest) (s, w, tr) =
     (if killSwitchActive s
      then (s\<lparr>currentExecution := None\<rparr>, w,
            tr @ [AddLog L_halted, SendToDesktop (D_status_killed tid (i + 1) n),
                  BroadcastToPopup (P_execution_killed i)])
      else
        (case currentExecution s of
           None \<Rightarrow> (s, w, tr @ [Uncaught TypeError])
         | Some e \<Rightarrow>
             (let s1 = s\<lparr>currentExecution := Some (e\<lparr>currentStep := i\<rparr>)\<rparr>
              in if step = JNull then (s1, w, tr @ [Uncaught TypeError])
                 else exec_loop R I tid n (i + 1) rest (run_step R I tid n i step (s1, w, tr)))))"

definition executeBrowserPlan ::
  "'w runner \<Rightarrow> 'w interference \<Rightarrow> string option \<Rightarrow> json list \<Rightarrow> state \<times> 'w
   \<Rightarrow> state \<times> 'w \<times> event list" where
  "executeBrowserPlan R I tid ss = (\<lambda>(s, w).
     exec_loop R I tid (length ss) 0 ss
       (s\<lparr>currentExecution := Some \<lparr>transactionId = tid, steps = ss, currentStep = 0\<rparr>\<rparr>, w, []))"

subsection \<open>From the chatbot's answer to the execution\<close>

definition browserActions :: "string list" where
  "browserActions =
     [''open_url'', ''click_element'', ''type_into'', ''press_key'', ''wait'', ''scroll_to'',
      ''select_option'', ''read_text'', ''go_back'', ''go_forward'', ''refresh'', ''close_tab'']"

definition is_browser_step :: "json \<Rightarrow> bool" where
  "is_browser_step step =
     (case get_prop step ''action'' of Some (JStr a) \<Rightarrow> a \<in> set browserActions | _ \<Rightarrow> False)"

text \<open>\<^verbatim>\<open>parsed.transaction_id = transactionId || parsed.transaction_id\<close>: with no
  identifier given, the property is assigned its own value, or \<^verbatim>\<open>undefined\<close> when it was
  absent, after which it still reads as \<^verbatim>\<open>undefined\<close>.\<close>

definition assign_transaction_id :: "json \<Rightarrow> string option \<Rightarrow> json" where
  "assign_transaction_id pj tid =
     (case or_else tid None of
        Some t \<Rightarrow> set_prop pj ''transaction_id'' (JStr t)
      | None \<Rightarrow> pj)"

text \<open>\<^verbatim>\<open>handleChatbotResponse(responseText, transactionId)\<close>, from the value that
  \<^verbatim>\<open>extractJSON\<close> returned (\<open>None\<close> for \<^verbatim>\<open>null\<close>). The function has no \<^verbatim>\<open>await\<close> before
  it calls the executor. An exception that nothing catches ends it; the trace then ends
  with \<open>Uncaught\<close>. \<open>I\<close> is the interference with the run it starts.\<close>

definition handleChatbotResponse ::
  "'w runner \<Rightarrow> 'w interference \<Rightarrow> string \<Rightarrow> json option \<Rightarrow> string option \<Rightarrow> state \<times> 'w
   \<Rightarrow> state \<times> 'w \<times> event list" where
  "handleChatbotResponse R I uuid parsed tid = (\<lambda>(s, w).
     (let tr0 = [AddLog (L_chatbot_response tid), BroadcastToPopup P_chatbot_raw]
      in case parsed of
           None \<Rightarrow> (s, w, tr0 @ [AddLog L_json_error, SendToDesktop (D_status_error_json tid),
                                 BroadcastToPopup P_execution_error_json])
         | Some pj \<Rightarrow>
             if \<not> truthy parsed
             then (s, w, tr0 @ [AddLog L_json_error, SendToDesktop (D_status_error_json tid),
                                BroadcastToPopup P_execution_error_json])
             else
               (let pj' = assign_transaction_id pj tid
                in case validatePlan uuid (Some pj') of
                     Inl e \<Rightarrow> (s, w, tr0 @ [Uncaught e])
                   | Inr v \<Rightarrow>
                       if \<not> valid v
                       then (s, w, tr0 @ [AddLog (L_validation_errors (errors v)),
                                          SendToDesktop (D_status_error_validation tid (errors v)),
                                          BroadcastToPopup (P_execution_error_validation (errors v))])
                       else
                         (case Option.bind (vplan v) (\<lambda>p. case runSafetyCheck p of
                                                              Inl e \<Rightarrow> None | Inr r \<Rightarrow> Some r) of
                            None \<Rightarrow> (s, w, tr0 @ [Uncaught TypeError])
                          | Some r \<Rightarrow>
                              if \<not> safe r
                              then (s, w, tr0 @ [AddLog (L_blocked (violations r)),
                                                 SendToDesktop (D_status_blocked tid (violations r)),
                                                 BroadcastToPopup (P_execution_blocked (violations r))])
                              else
                                (case get_prop (splan r) ''steps'' of
                                   Some (JArr ss) \<Rightarrow>
                                     (let browserSteps = filter is_browser_step ss;
                                          desktopSteps = filter (\<lambda>x. \<not> is_browser_step x) ss;
                                          tr1 = tr0 @ [AddLog (L_plan_validated (length ss)),
                                                       BroadcastToPopup (P_plan_validated (splan r))]
                                                @ (if length desktopSteps > 0
                                                   then [AddLog (L_sending_desktop (length desktopSteps)),
                                                         SendToDesktop (D_execute_desktop_actions tid desktopSteps)]
                                                   else [])
                                      in if length browserSteps > 0
                                         then (let (s', w', tr2) = executeBrowserPlan R I tid browserSteps (s, w)
                                               in (s', w',
                                                   tr1 @ [AddLog (L_executing_browser (length browserSteps)),
                                                          SendToDesktop (D_status_executing tid (length browserSteps))]
                                                   @ tr2))
                                         else (s, w, tr1))
                                 | _ \<Rightarrow> (s, w, tr0 @ [Uncaught TypeError]))))))"

subsection \<open>Dispatch\<close>

text \<open>The messages the worker reacts to, from the desktop agent, the popup, the content
  scripts and the socket, and an observed tab location with its category and the time.
  The requests that assign none of the variables of the state (\<^verbatim>\<open>get_status\<close>,
  \<^verbatim>\<open>get_logs\<close>, \<^verbatim>\<open>update_settings\<close>, \<^verbatim>\<open>connection_ack\<close>, \<^verbatim>\<open>pong\<close>) are left out, and
  \<^verbatim>\<open>connect\<close>, \<^verbatim>\<open>disconnect\<close> and the reconnect alarm act through the socket callbacks.
  The handlers other than that of the chatbot's answer act on the worker's variables
  only; what happens to the browser meanwhile belongs to the schedule of a run.\<close>

datatype message =
    M_kill_switch
  | M_execute_prompt "payload option"
  | M_register_triggers "rule list option"
  | M_chatbot_response "json option" "string option"
  | M_url_observed string string int
  | M_ws_open
  | M_ws_close

definition with_world :: "'w \<Rightarrow> state \<times> event list \<Rightarrow> state \<times> 'w \<times> event list" where
  "with_world w r = (fst r, w, snd r)"

fun handle ::
  "'w runner \<Rightarrow> 'w interference \<Rightarrow> string \<Rightarrow> message \<Rightarrow> state \<times> 'w \<Rightarrow> state \<times> 'w \<times> event list" where
  "handle R I uuid M_kill_switch (s, w) = with_world w (handleKillSwitch s)"
| "handle R I uuid (M_execute_prompt pl) (s, w) = with_world w (handlePromptExecution uuid pl s)"
| "handle R I uuid (M_register_triggers rs) (s, w) = with_world w (handleRegisterTriggers rs s)"
| "handle R I uuid (M_chatbot_response parsed tid) (s, w) = handleChatbotResponse R I uuid parsed tid (s, w)"
| "handle R I uuid (M_url_observed url category now) (s, w) =
     with_world w (checkRulesAgainstUrl url category now s)"
| "handle R I uuid M_ws_open (s, w) = with_world w (ws_onopen s)"
| "handle R I uuid M_ws_close (s, w) = with_world w (ws_onclose s)"

text \<open>Messages handled one after the other, with the events of all of them.\<close>

fun handle_all ::
  "'w runner \<Rightarrow> 'w interference \<Rightarrow> string \<Rightarrow> message list \<Rightarrow> state \<times> 'w
   \<Rightarrow> state \<times> 'w \<times> event list" where
  "handle_all R I uuid [] (s, w) = (s, w, [])"
| "handle_all R I uuid (m # ms) (s, w) =
     (let (s1, w1, evs1) = handle R I uuid m (s, w);
          (s2, w2, evs2) = handle_all R I uuid ms (s1, w1)
      in (s2, w2, evs1 @ evs2))"

text \<open>Nothing arrives while a step is suspended.\<close>

definition no_interference :: "'w interference" where
  "no_interference i = (\<lambda>(s, w). (s, w, []))"

text \<open>The interference of a schedule. While step \<open>i\<close> is suspended the browser changes by
  \<open>B i\<close>, which stands for everything that touches it meanwhile other than the executor
  (the user, pages loading, a prompt being injected into the chatbot tab), and the
  messages \<open>E i\<close> arrive and are handled, in order, by the handlers above. An answer of
  the chatbot among them starts a second run on the same \<^verbatim>\<open>currentExecution\<close>; that run
  is taken to its end before the suspended step resumes.\<close>

definition during ::
  "'w runner \<Rightarrow> string \<Rightarrow> (nat \<Rightarrow> message list) \<Rightarrow> (nat \<Rightarrow> 'w \<Rightarrow> 'w) \<Rightarrow> 'w interference" where
  "during R uuid E B i = (\<lambda>(s, w). handle_all R no_interference uuid (E i) (s, B i w))"

section \<open>Runs\<close>

text \<open>The state of a freshly started worker: the initial values of its top-level
  variables.\<close>

definition initial_state :: state where
  "initial_state =
     \<lparr>wsConnected = False, reconnectAttempts = 0, registeredRules = [],
      triggeredRulesState = [], processedTxIds = [], killSwitchActive = False,
      currentExecution = None\<rparr>"

text \<open>A sequence of observations (location, category, time), evaluated in order.\<close>

fun observe_all :: "(string \<times> string \<times> int) list \<Rightarrow> state \<Rightarrow> state" where
  "observe_all [] s = s"
| "observe_all ((url, category, now) # rest) s =
     observe_all rest (fst (checkRulesAgainstUrl url category now s))"

text \<open>\<open>n\<close> consecutive calls of \<^verbatim>\<open>scheduleReconnect\<close> with no successful connection in
  between.\<close>

definition reconnect_n :: "nat \<Rightarrow> state \<Rightarrow> state" where
  "reconnect_n n = (\<lambda>s. fst (scheduleReconnect s)) ^^ n"

text \<open>A request with a prompt and a transaction identifier, and a sequence of such
  requests submitted one after the other.\<close>

definition request :: "string \<Rightarrow> string \<Rightarrow> payload option" where
  "request prompt tid =
     Some \<lparr>p_prompt = Some prompt, p_text = None, p_transaction_id = Some tid,
           p_transactionId = None\<rparr>"

fun submit_all :: "string \<Rightarrow> string \<Rightarrow> string list \<Rightarrow> state \<Rightarrow> state" where
  "submit_all uuid prompt [] s = s"
| "submit_all uuid prompt (t # ts) s =
     submit_all uuid prompt ts (fst (handlePromptExecution uuid (request prompt t) s))"

definition fifty_ids :: "string list" where
  "fifty_ids = map (\<lambda>n. replicate n (CHR ''y'')) [1..<51]"

text \<open>The denylisted keywords found in the lower-cased serialisation of a step's
  parameters, in the order of the denylist.\<close>

definition step_hits :: "json \<Rightarrow> string list" where
  "step_hits step = filter (str_includes (params_str step)) DESTRUCTIVE_KEYWORDS"

text \<open>One violation for every step and keyword found in it, in step order, numbered
  from \<open>i + 1\<close>.\<close>

fun hit_violations :: "nat \<Rightarrow> json list \<Rightarrow> violation list" where
  "hit_violations i [] = []"
| "hit_violations i (step # rest) =
     map (Violation (i + 1)) (step_hits step) @ hit_violations (i + 1) rest"

text \<open>The step-level errors of all steps, in step order, numbered from \<open>i + 1\<close>.\<close>

fun all_step_errors :: "nat \<Rightarrow> json list \<Rightarrow> verror list" where
  "all_step_errors i [] = []"
| "all_step_errors i (step # rest) = step_errors i step @ all_step_errors (i + 1) rest"

text \<open>The one-based number of the step an error message names.\<close>

fun error_step :: "verror \<Rightarrow> nat option" where
  "error_step (MissingAction n) = Some n"
| "error_step (UnknownAction n a) = Some n"
| "error_step (InvalidParams n) = Some n"
| "error_step e = None"

text \<open>A step as the second loop of \<^verbatim>\<open>runSafetyCheck\<close> leaves it.\<close>

definition check_result :: "json \<Rightarrow> json" where
  "check_result step = snd (check_step 0 step [])"

text \<open>A step that passes validation: an allowed action and parameters that are an object.\<close>

definition step_ok :: "json \<Rightarrow> bool" where
  "step_ok step = (allowed_action (get_prop step ''action'')
      \<and> truthy (get_prop step ''params'') \<and> typeof_object (get_prop step ''params''))"

text \<open>The plan object as \<^verbatim>\<open>validatePlan\<close> leaves it: \<^verbatim>\<open>steps\<close> assigned, and the
  transaction identifier generated when there was none.\<close>

definition stamped :: "string \<Rightarrow> json \<Rightarrow> json list \<Rightarrow> json" where
  "stamped uuid p ss =
     (let p1 = set_prop p ''steps'' (JArr ss)
      in if \<not> truthy (get_prop p1 ''transaction_id'')
         then set_prop p1 ''transaction_id'' (JStr uuid) else p1)"

text \<open>Example plans: one whose only step arrives marked \<^verbatim>\<open>blocked\<close> with harmless
  parameters, and one whose first step opens a location with \<^verbatim>\<open>Delete\<close> in it. The
  runner of the examples does nothing and never fails.\<close>

definition preblocked_step :: json where
  "preblocked_step =
     JObj [(''action'', JStr ''wait''), (''params'', JObj [(''ms'', JNum 1)]),
           (''safety_check'', JStr ''blocked'')]"

definition preblocked_plan :: json where
  "preblocked_plan = JObj [(''transaction_id'', JStr ''t1''), (''steps'', JArr [preblocked_step])]"

definition idle_runner :: "unit runner" where
  "idle_runner step w = (None, w)"

definition unsafe_steps :: "json list" where
  "unsafe_steps =
     [JObj [(''action'', JStr ''open_url''),
            (''params'', JObj [(''url'', JStr ''https://shop.example/Delete-Account'')]),
            (''safety_check'', JStr ''pending'')],
      JObj [(''action'', JStr ''wait''), (''params'', JObj [(''ms'', JNum 500)])]]"

definition unsafe_plan :: json where
  "unsafe_plan = JObj [(''steps'', JArr unsafe_steps)]"

text \<open>Projections of a trace: the zero-based indices of the steps handed to the action
  runner, in order; the per-step completion events (index and error message, if any); the
  one-based step numbers and messages of the logged failures; the terminal messages sent
  to the desktop.\<close>

fun dispatched :: "event list \<Rightarrow> nat list" where
  "dispatched [] = []"
| "dispatched (BroadcastToPopup (P_step_executing i n a ps) # evs) = i # dispatched evs"
| "dispatched (e # evs) = dispatched evs"

fun completions :: "event list \<Rightarrow> (nat \<times> string option) list" where
  "completions [] = []"
| "completions (BroadcastToPopup (P_step_complete i b msg) # evs) = (i, msg) # completions evs"
| "completions (e # evs) = completions evs"

fun logged_failures :: "event list \<Rightarrow> (nat \<times> string) list" where
  "logged_failures [] = []"
| "logged_failures (AddLog (L_step_failed n msg) # evs) = (n, msg) # logged_failures evs"
| "logged_failures (e # evs) = logged_failures evs"

fun terminal :: "event list \<Rightarrow> desktop_message list" where
  "terminal [] = []"
| "terminal (SendToDesktop (D_result_completed t n) # evs) = D_result_completed t n # terminal evs"
| "terminal (SendToDesktop (D_status_killed t i n) # evs) = D_status_killed t i n # terminal evs"
| "terminal (e # evs) = terminal evs"

text \<open>The browser after the runner has run the given steps in order, numbered from \<open>i\<close>,
  each followed by the browser change \<open>B\<close> of its step, and what the runner answers for
  each of them.\<close>

fun run_world :: "'w runner \<Rightarrow> (nat \<Rightarrow> 'w \<Rightarrow> 'w) \<Rightarrow> nat \<Rightarrow> json list \<Rightarrow> 'w \<Rightarrow> 'w" where
  "run_world R B i [] w = w"
| "run_world R B i (st # rest) w = run_world R B (i + 1) rest (B i (snd (R st w)))"

fun outcomes ::
  "'w runner \<Rightarrow> (nat \<Rightarrow> 'w \<Rightarrow> 'w) \<Rightarrow> nat \<Rightarrow> json list \<Rightarrow> 'w \<Rightarrow> (nat \<times> string option) list" where
  "outcomes R B i [] w = []"
| "outcomes R B i (st # rest) w =
     (i, fst (R st w)) # outcomes R B (i + 1) rest (B i (snd (R st w)))"

text \<open>The outcomes that are failures, with one-based step numbers.\<close>

fun failures :: "(nat \<times> string option) list \<Rightarrow> (nat \<times> string) list" where
  "failures [] = []"
| "failures ((i, None) # rest) = failures rest"
| "failures ((i, Some msg) # rest) = (i + 1, msg) # failures rest"

text \<open>Step boundary \<open>k\<close> is the first at which the kill switch is found set: it was set
  when the run started (\<open>k = 0\<close>), or a kill message arrived while step \<open>k - 1\<close> was
  suspended and none while an earlier step was.\<close>

definition first_kill :: "state \<Rightarrow> (nat \<Rightarrow> message list) \<Rightarrow> nat \<Rightarrow> bool" where
  "first_kill s E k =
     (if k = 0 then killSwitchActive s
      else \<not> killSwitchActive s \<and> M_kill_switch \<in> set (E (k - 1))
           \<and> list_all (\<lambda>j. M_kill_switch \<notin> set (E j)) [0..<k - 1])"

text \<open>No answer of the chatbot arrives while one of the steps \<open>0..n-1\<close> is suspended, so
  that no second run of the executor is started within them.\<close>

fun is_chatbot_response :: "message \<Rightarrow> bool" where
  "is_chatbot_response (M_chatbot_response parsed tid) = True"
| "is_chatbot_response m = False"

definition reentry_free :: "(nat \<Rightarrow> message list) \<Rightarrow> nat \<Rightarrow> bool" where
  "reentry_free E n = list_all (\<lambda>j. list_all (\<lambda>m. \<not> is_chatbot_response m) (E j)) [0..<n]"

text \<open>A sequence of messages handled one after the other; \<open>E\<close> and \<open>B\<close> are the schedule of
  what arrives, and of how the browser changes, during the steps of a run that one of
  them starts.\<close>

fun run_messages ::
  "'w runner \<Rightarrow> string \<Rightarrow> (nat \<Rightarrow> message list) \<Rightarrow> (nat \<Rightarrow> 'w \<Rightarrow> 'w) \<Rightarrow> message list
   \<Rightarrow> state \<times> 'w \<Rightarrow> state \<times> 'w" where
  "run_messages R uuid E B [] c = c"
| "run_messages R uuid E B (m # ms) c =
     (let (s', w', tr) = handle R (during R uuid E B) uuid m c
      in run_messages R uuid E B ms (s', w'))"

text \<open>An example run: three steps, and a runner that counts the steps it ran and fails on
  every click.\<close>

definition three_steps :: "json list" where
  "three_steps =
     [JObj [(''action'', JStr ''open_url''), (''params'', JObj [(''url'', JStr ''https://example.org/'')])],
      JObj [(''action'', JStr ''click_element''), (''params'', JObj [(''target'', JStr ''Sign in'')])],
      JObj [(''action'', JStr ''wait''), (''params'', JObj [(''ms'', JNum 500)])]]"

definition failing_runner :: "nat runner" where
  "failing_runner step w =
     (if get_prop step ''action'' = Some (JStr ''click_element'') then Some ''Element not found''
      else None, Suc w)"

text \<open>A list of events none of which belongs to a run of the executor.\<close>

definition run_free :: "event list \<Rightarrow> bool" where
  "run_free evs = (dispatched evs = [] \<and> completions evs = [] \<and> logged_failures evs = []
                   \<and> terminal evs = [])"

text \<open>Example schedules for the three steps: other messages but no kill while the second
  step is suspended; a kill message among others while the second step is suspended; an
  answer of the chatbot, with a one-step plan, while the first step is suspended.\<close>

definition busy_schedule :: "nat \<Rightarrow> message list" where
  "busy_schedule i =
     (if i = 1 then [M_ws_close, M_execute_prompt (request ''go'' ''a''),
                     M_url_observed ''https://example.org/'' ''other'' 1700000000000]
      else [])"

definition kill_schedule :: "nat \<Rightarrow> message list" where
  "kill_schedule i = (if i = 1 then [M_ws_close, M_kill_switch] else [])"

definition reentry_schedule :: "nat \<Rightarrow> message list" where
  "reentry_schedule i = (if i = 0 then [M_chatbot_response (Some preblocked_plan) None] else [])"

text \<open>Example browser changes, for the counting browser of the example runner: nothing
  else touches it, or ten more things happen to it while the first step is suspended.\<close>

definition still :: "nat \<Rightarrow> nat \<Rightarrow> nat" where
  "still i w = w"

definition ten_more :: "nat \<Rightarrow> nat \<Rightarrow> nat" where
  "ten_more i w = (if i = 0 then w + 10 else w)"

text \<open>Example plans for validation: one that uses the \<^verbatim>\<open>actions\<close> key and has no
  transaction identifier, one without steps, one with eleven steps, and one whose second
  step is \<^verbatim>\<open>null\<close>.\<close>

definition actions_plan :: json where
  "actions_plan =
     JObj [(''actions'', JArr
        [JObj [(''action'', JStr ''open_url''), (''params'', JObj [(''url'', JStr ''https://example.org/'')])],
         JObj [(''action'', JStr ''wait''), (''params'', JObj [(''ms'', JNum 500)])]])]"

definition empty_plan :: json where
  "empty_plan = JObj [(''transaction_id'', JStr ''t0''), (''steps'', JArr [])]"

definition long_plan :: json where
  "long_plan =
     JObj [(''steps'', JArr (replicate 11
        (JObj [(''action'', JStr ''wait''), (''params'', JObj [(''ms'', JNum 1)])])))]"

definition null_step_plan :: json where
  "null_step_plan =
     JObj [(''steps'', JArr
        [JObj [(''action'', JStr ''fly''), (''params'', JObj [])], JNull])]"

text \<open>An example rule, and a visit to a matching site followed, one hundred seconds later,
  by a visit elsewhere.\<close>

definition social_rule :: rule where
  "social_rule = \<lparr>rule_id = ''r1'', criteria = Some \<lparr>ctype = ''category'', cvalue = ''social''\<rparr>\<rparr>"

definition revisit :: "(string \<times> string \<times> int) list" where
  "revisit =
     [(''https://www.youtube.com/'', ''social'', 1700000000000),
      (''https://example.org/'', ''other'', 1700000100000)]"

section \<open>Rule sets\<close>

text \<open>
  Claim C7. Whatever observations were evaluated before, registering a rule set installs
  exactly the new rules and leaves the per-rule match state empty: no rule keeps an
  \<open>active\<close> flag or a \<open>lastTriggered\<close> time across the swap.
\<close>

theorem register_triggers_resets_match_state:
  "registeredRules (fst (handleRegisterTriggers (Some rs) (observe_all obs s))) = rs
   \<and> triggeredRulesState (fst (handleRegisterTriggers (Some rs) (observe_all obs s))) = []
   \<and> map_of (triggeredRulesState (fst (handleRegisterTriggers (Some rs) (observe_all obs s)))) k = None"
  by (simp add: handleRegisterTriggers_def)

section \<open>Reconnection delays\<close>

lemma reconnect_n_attempts:
  "reconnectAttempts s \<le> 50 \<Longrightarrow>
   reconnectAttempts (reconnect_n j s) = min (reconnectAttempts s + j) 50"
  by (induction j)
     (auto simp: reconnect_n_def scheduleReconnect_def MAX_RECONNECT_ATTEMPTS_def Let_def)

text \<open>
  Claim C9. After a successful connection has reset the counter, the \<open>k\<close>-th consecutive
  call of \<^verbatim>\<open>scheduleReconnect\<close>, for \<open>k\<close> from 1 to 50, creates the alarm with delay
  \<open>min (2000 * 1.5^(k-1)) 30000\<close> milliseconds. With the counter at 50 or more the call
  creates no alarm and leaves the state as it is, and so does every call after the
  fiftieth until a connection succeeds.
\<close>

theorem reconnect_delay_sequence:
  "(1 \<le> k \<and> k \<le> MAX_RECONNECT_ATTEMPTS \<longrightarrow>
      snd (scheduleReconnect (reconnect_n (k - 1) (fst (ws_onopen s))))
        = [AlarmReconnect (min (2000 * (3 / 2) ^ (k - 1)) 30000)])
   \<and> (MAX_RECONNECT_ATTEMPTS \<le> reconnectAttempts s \<longrightarrow>
        scheduleReconnect s = (s, [AddLog L_max_reconnect]))
   \<and> snd (scheduleReconnect (reconnect_n (MAX_RECONNECT_ATTEMPTS + m) (fst (ws_onopen s))))
        = [AddLog L_max_reconnect]"
proof -
  have a0: "reconnectAttempts (fst (ws_onopen s)) \<le> 50"
    by (simp add: ws_onopen_def)
  have a: "reconnectAttempts (reconnect_n j (fst (ws_onopen s))) = min j 50" for j
    using reconnect_n_attempts [OF a0, of j] by (simp add: ws_onopen_def)
  have p1: "1 \<le> k \<and> k \<le> MAX_RECONNECT_ATTEMPTS \<longrightarrow>
      snd (scheduleReconnect (reconnect_n (k - 1) (fst (ws_onopen s))))
        = [AlarmReconnect (min (2000 * (3 / 2) ^ (k - 1)) 30000)]"
    using a [of "k - 1"]
    by (auto simp: scheduleReconnect_def MAX_RECONNECT_ATTEMPTS_def
                   BASE_RECONNECT_DELAY_def Let_def)
  have p2: "MAX_RECONNECT_ATTEMPTS \<le> reconnectAttempts s \<longrightarrow>
        scheduleReconnect s = (s, [AddLog L_max_reconnect])"
    by (simp add: scheduleReconnect_def)
  have p3: "snd (scheduleReconnect (reconnect_n (MAX_RECONNECT_ATTEMPTS + m) (fst (ws_onopen s))))
        = [AddLog L_max_reconnect]"
    using a [of "MAX_RECONNECT_ATTEMPTS + m"]
    by (simp add: scheduleReconnect_def MAX_RECONNECT_ATTEMPTS_def)
  from p1 p2 p3 show ?thesis by blast
qed

theorem reconnect_delay_sequence_witness:
  "snd (scheduleReconnect (reconnect_n 2 (fst (ws_onopen initial_state)))) = [AlarmReconnect 4500]
   \<and> snd (scheduleReconnect (reconnect_n 7 (fst (ws_onopen initial_state)))) = [AlarmReconnect 30000]
   \<and> scheduleReconnect (initial_state\<lparr>reconnectAttempts := 50\<rparr>)
       = (initial_state\<lparr>reconnectAttempts := 50\<rparr>, [AddLog L_max_reconnect])"
  using reconnect_delay_sequence [of 3 initial_state 0]
        reconnect_delay_sequence [of 8 initial_state 0]
        reconnect_delay_sequence [of 1 "initial_state\<lparr>reconnectAttempts := 50\<rparr>" 0]
  by (simp add: MAX_RECONNECT_ATTEMPTS_def power_numeral_reduce)

section \<open>The transaction ledger\<close>

lemma submit_new:
  assumes "\<not> killSwitchActive s" "prompt \<noteq> []" "t \<noteq> []" "t \<notin> set (processedTxIds s)"
  shows "handlePromptExecution uuid (request prompt t) s =
           (s\<lparr>processedTxIds := (if length (processedTxIds s) \<ge> 50 then tl (processedTxIds s @ [t]) else processedTxIds s @ [t])\<rparr>,
            [AddLog (L_prompt_received t prompt), BroadcastToPopup (P_execution_start t prompt),
             SendToDesktop (D_status_planning t), InjectPrompt t prompt])"
  using assms by (simp add: handlePromptExecution_def request_def Let_def)

lemma submit_duplicate:
  assumes "\<not> killSwitchActive s" "prompt \<noteq> []" "t \<noteq> []" "t \<in> set (processedTxIds s)"
  shows "handlePromptExecution uuid (request prompt t) s = (s, [AddLog (L_duplicate t)])"
  using assms by (simp add: handlePromptExecution_def request_def Let_def)

lemma submit_kill: "killSwitchActive (fst (handlePromptExecution uuid pl s)) = killSwitchActive s"
  by (simp add: handlePromptExecution_def Let_def)

lemma submit_all_new:
  "\<not> killSwitchActive s \<Longrightarrow> prompt \<noteq> [] \<Longrightarrow> [] \<notin> set ts \<Longrightarrow> distinct ts
   \<Longrightarrow> set ts \<inter> set (processedTxIds s) = {} \<Longrightarrow> length (processedTxIds s) \<le> 50
   \<Longrightarrow> processedTxIds (submit_all uuid prompt ts s)
       = drop (length (processedTxIds s) + length ts - 50) (processedTxIds s @ ts)
     \<and> \<not> killSwitchActive (submit_all uuid prompt ts s)"
proof (induction ts arbitrary: s)
  case Nil
  then show ?case by simp
next
  case (Cons t ts)
  let ?L = "processedTxIds s"
  let ?s1 = "fst (handlePromptExecution uuid (request prompt t) s)"
  have tn: "t \<noteq> []" "t \<notin> set ?L" using Cons.prems by auto
  have s1: "processedTxIds ?s1 = (if length ?L \<ge> 50 then tl (?L @ [t]) else ?L @ [t])"
    using submit_new [OF Cons.prems(1,2) tn] by simp
  have k1: "\<not> killSwitchActive ?s1" using Cons.prems(1) by (simp add: submit_kill)
  have sub: "set (processedTxIds ?s1) \<subseteq> insert t (set ?L)"
    using s1 by (auto dest: list.set_sel(2) [rotated])
  have disj: "set ts \<inter> set (processedTxIds ?s1) = {}"
    using sub Cons.prems(3,4,5) by auto
  have len: "length (processedTxIds ?s1) \<le> 50" using s1 Cons.prems(6) by auto
  have ih: "processedTxIds (submit_all uuid prompt ts ?s1)
       = drop (length (processedTxIds ?s1) + length ts - 50) (processedTxIds ?s1 @ ts)
     \<and> \<not> killSwitchActive (submit_all uuid prompt ts ?s1)"
    using Cons.IH [OF k1 Cons.prems(2) _ _ disj len] Cons.prems(3,4) by simp
  show ?case
  proof (cases "length ?L \<ge> 50")
    case True
    then have l50: "length ?L = 50" using Cons.prems(6) by simp
    then have ne: "?L \<noteq> []" by auto
    have "processedTxIds ?s1 = tl ?L @ [t]" using s1 True ne by simp
    then show ?thesis using ih l50 ne by (simp add: drop_Suc tl_append2)
  next
    case False
    then have "processedTxIds ?s1 = ?L @ [t]" using s1 by simp
    then show ?thesis using ih False by simp
  qed
qed

text \<open>
  Claim C8. While the kill switch is off, for a request with a prompt and a transaction
  identifier: the ledger never holds more than 50 identifiers and holds none twice; a
  new identifier is appended and the request processed, the oldest identifier being
  dropped when 50 were held; an identifier still held is ignored with the state
  unchanged, so submitting the same identifier twice processes it once; and after 50
  further new, distinct identifiers were accepted the ledger holds exactly those, so the
  first identifier is accepted and processed again.
\<close>

theorem transaction_ledger_bounded_dedup:
  assumes nk: "\<not> killSwitchActive s" and pr: "prompt \<noteq> []" and xn: "x \<noteq> []"
    and len: "length (processedTxIds s) \<le> 50" and dist: "distinct (processedTxIds s)"
  shows "length (processedTxIds (fst (handlePromptExecution uuid (request prompt x) s))) \<le> 50
    \<and> distinct (processedTxIds (fst (handlePromptExecution uuid (request prompt x) s)))
    \<and> (x \<notin> set (processedTxIds s) \<longrightarrow>
         handlePromptExecution uuid (request prompt x) s =
           (s\<lparr>processedTxIds := (if length (processedTxIds s) = 50 then tl (processedTxIds s) @ [x]
                                   else processedTxIds s @ [x])\<rparr>,
            [AddLog (L_prompt_received x prompt), BroadcastToPopup (P_execution_start x prompt),
             SendToDesktop (D_status_planning x), InjectPrompt x prompt]))
    \<and> (x \<in> set (processedTxIds s) \<longrightarrow>
         handlePromptExecution uuid (request prompt x) s = (s, [AddLog (L_duplicate x)]))
    \<and> handlePromptExecution uuid (request prompt x)
         (fst (handlePromptExecution uuid (request prompt x) s))
       = (fst (handlePromptExecution uuid (request prompt x) s), [AddLog (L_duplicate x)])
    \<and> (length ys = 50 \<and> distinct ys \<and> [] \<notin> set ys \<and> x \<notin> set ys
        \<and> set ys \<inter> set (processedTxIds s) = {} \<longrightarrow>
         processedTxIds (submit_all uuid prompt ys (fst (handlePromptExecution uuid (request prompt x) s))) = ys
         \<and> snd (handlePromptExecution uuid (request prompt x)
                  (submit_all uuid prompt ys (fst (handlePromptExecution uuid (request prompt x) s))))
             = [AddLog (L_prompt_received x prompt), BroadcastToPopup (P_execution_start x prompt),
                SendToDesktop (D_status_planning x), InjectPrompt x prompt])"
proof -
  let ?L = "processedTxIds s"
  let ?s1 = "fst (handlePromptExecution uuid (request prompt x) s)"
  have new: "x \<notin> set ?L \<Longrightarrow> handlePromptExecution uuid (request prompt x) s =
           (s\<lparr>processedTxIds := (if length ?L = 50 then tl ?L @ [x] else ?L @ [x])\<rparr>,
            [AddLog (L_prompt_received x prompt), BroadcastToPopup (P_execution_start x prompt),
             SendToDesktop (D_status_planning x), InjectPrompt x prompt])"
  proof -
    assume a: "x \<notin> set ?L"
    have ne: "length ?L = 50 \<Longrightarrow> ?L \<noteq> []" by auto
    have eq: "(50 \<le> length ?L) = (length ?L = 50)" using len by arith
    show ?thesis
    proof (cases "length ?L = 50")
      case True
      then show ?thesis using submit_new [OF nk pr xn a, of uuid] ne eq by simp
    next
      case False
      then show ?thesis using submit_new [OF nk pr xn a, of uuid] eq by simp
    qed
  qed
  have dup: "x \<in> set ?L \<Longrightarrow> handlePromptExecution uuid (request prompt x) s = (s, [AddLog (L_duplicate x)])"
    using submit_duplicate [OF nk pr xn] by simp
  have L1: "processedTxIds ?s1 = (if x \<in> set ?L then ?L else if length ?L = 50 then tl ?L @ [x] else ?L @ [x])"
    using new dup by auto
  have len1: "length (processedTxIds ?s1) \<le> 50" using L1 len by auto
  have tlsub: "set (tl ?L) \<subseteq> set ?L" by (cases ?L) auto
  have dist1: "distinct (processedTxIds ?s1)"
    using L1 dist tlsub by (auto simp: distinct_tl)
  have in1: "x \<in> set (processedTxIds ?s1)" using L1 by auto
  have nk1: "\<not> killSwitchActive ?s1" using nk by (simp add: submit_kill)
  have twice: "handlePromptExecution uuid (request prompt x) ?s1 = (?s1, [AddLog (L_duplicate x)])"
    using submit_duplicate [OF nk1 pr xn in1] .
  have evict: "processedTxIds (submit_all uuid prompt ys ?s1) = ys
         \<and> snd (handlePromptExecution uuid (request prompt x) (submit_all uuid prompt ys ?s1))
             = [AddLog (L_prompt_received x prompt), BroadcastToPopup (P_execution_start x prompt),
                SendToDesktop (D_status_planning x), InjectPrompt x prompt]"
    if h: "length ys = 50 \<and> distinct ys \<and> [] \<notin> set ys \<and> x \<notin> set ys \<and> set ys \<inter> set ?L = {}"
  proof -
    have sub: "set (processedTxIds ?s1) \<subseteq> insert x (set ?L)"
      using L1 tlsub by auto
    have disj: "set ys \<inter> set (processedTxIds ?s1) = {}" using sub h by auto
    have r: "processedTxIds (submit_all uuid prompt ys ?s1)
       = drop (length (processedTxIds ?s1) + length ys - 50) (processedTxIds ?s1 @ ys)
       \<and> \<not> killSwitchActive (submit_all uuid prompt ys ?s1)"
      using submit_all_new [OF nk1 pr _ _ disj len1] h by simp
    then have ys: "processedTxIds (submit_all uuid prompt ys ?s1) = ys" using h by simp
    have xnot: "x \<notin> set (processedTxIds (submit_all uuid prompt ys ?s1))" using ys h by simp
    show ?thesis using ys submit_new [OF _ pr xn xnot, of uuid] r by simp
  qed
  show ?thesis using len1 dist1 new dup twice evict by blast
qed

lemma fifty_ids_props:
  "length fifty_ids = 50" "distinct fifty_ids" "[] \<notin> set fifty_ids" "''a'' \<notin> set fifty_ids"
proof -
  show "length fifty_ids = 50" by (simp add: fifty_ids_def)
  show "distinct fifty_ids" by (simp add: fifty_ids_def distinct_map inj_on_def)
  show "[] \<notin> set fifty_ids" by (auto simp: fifty_ids_def)
  have "''a'' \<noteq> replicate n (CHR ''y'')" for n
    by (cases n) simp_all
  then show "''a'' \<notin> set fifty_ids" by (auto simp: fifty_ids_def)
qed

theorem transaction_ledger_bounded_dedup_witness:
  "handlePromptExecution ''u'' (request ''go'' ''a'') initial_state
     = (initial_state\<lparr>processedTxIds := [''a'']\<rparr>,
        [AddLog (L_prompt_received ''a'' ''go''), BroadcastToPopup (P_execution_start ''a'' ''go''),
         SendToDesktop (D_status_planning ''a''), InjectPrompt ''a'' ''go''])
   \<and> handlePromptExecution ''u'' (request ''go'' ''a'') (initial_state\<lparr>processedTxIds := [''a'']\<rparr>)
     = (initial_state\<lparr>processedTxIds := [''a'']\<rparr>, [AddLog (L_duplicate ''a'')])
   \<and> processedTxIds (submit_all ''u'' ''go'' fifty_ids (initial_state\<lparr>processedTxIds := [''a'']\<rparr>)) = fifty_ids
   \<and> snd (handlePromptExecution ''u'' (request ''go'' ''a'')
            (submit_all ''u'' ''go'' fifty_ids (initial_state\<lparr>processedTxIds := [''a'']\<rparr>)))
       = [AddLog (L_prompt_received ''a'' ''go''), BroadcastToPopup (P_execution_start ''a'' ''go''),
          SendToDesktop (D_status_planning ''a''), InjectPrompt ''a'' ''go'']"
proof -
  have h: "\<not> killSwitchActive initial_state" "''go'' \<noteq> []" "''a'' \<noteq> []"
    "length (processedTxIds initial_state) \<le> 50" "distinct (processedTxIds initial_state)"
    by (simp_all add: initial_state_def)
  have e: "processedTxIds initial_state = []" by (simp add: initial_state_def)
  note t = transaction_ledger_bounded_dedup [OF h, of "''u''" fifty_ids]
  have first: "handlePromptExecution ''u'' (request ''go'' ''a'') initial_state
     = (initial_state\<lparr>processedTxIds := [''a'']\<rparr>,
        [AddLog (L_prompt_received ''a'' ''go''), BroadcastToPopup (P_execution_start ''a'' ''go''),
         SendToDesktop (D_status_planning ''a''), InjectPrompt ''a'' ''go''])"
    using t e by simp
  then have s1: "fst (handlePromptExecution ''u'' (request ''go'' ''a'') initial_state)
     = initial_state\<lparr>processedTxIds := [''a'']\<rparr>" by simp
  show ?thesis using t fifty_ids_props e first unfolding s1 by simp
qed

section \<open>Properties and assignments\<close>

lemma get_set_same: "get_prop (set_prop (JObj kvs) k v) k = Some v"
  by (simp add: update_conv')

lemma get_set_other: "k' \<noteq> k \<Longrightarrow> get_prop (set_prop p k v) k' = get_prop p k'"
  by (cases p) (simp_all add: update_conv')

lemma set_prop_idem: "set_prop (set_prop p k v) k v = set_prop p k v"
proof (cases p)
  case (JObj kvs)
  have "AList.update k v (AList.update k v kvs) = AList.update k v kvs"
    by (induction kvs) auto
  then show ?thesis using JObj by simp
qed simp_all

section \<open>What validation returns\<close>

lemma allowed_truthy: "allowed_action a \<Longrightarrow> truthy a"
  by (cases a rule: allowed_action.cases) (auto simp: ALLOWED_ACTIONS_def)

lemma step_errors_empty: "(step_errors i step = []) = step_ok step"
  using allowed_truthy [of "get_prop step ''action''"]
  by (auto simp: step_errors_def step_ok_def)

lemma validate_steps_ok:
  "JNull \<notin> set ss \<Longrightarrow> validate_steps i ss errs = Inr (errs @ all_step_errors i ss)"
  by (induction ss arbitrary: i errs) auto

lemma validate_steps_null:
  "JNull \<in> set ss \<Longrightarrow> validate_steps i ss errs = Inl TypeError"
  by (induction ss arbitrary: i errs) auto

lemma all_step_errors_empty:
  "(all_step_errors i ss = []) = (\<forall>st \<in> set ss. step_ok st)"
  by (induction ss arbitrary: i) (auto simp: step_errors_empty)

lemma plan_steps_obj: "plan_steps p = Some a \<Longrightarrow> \<exists>kvs. p = JObj kvs"
  by (cases p) (auto simp: plan_steps_def)

lemma validatePlan_steps:
  assumes ps: "plan_steps p = Some (JArr ss)" and nn: "JNull \<notin> set ss"
    and l1: "1 \<le> length ss" and l2: "length ss \<le> 10"
  shows "validatePlan uuid (Some p) =
     Inr \<lparr>valid = (all_step_errors 0 ss = []), errors = all_step_errors 0 ss,
          vplan = (if all_step_errors 0 ss = [] then Some (stamped uuid p ss) else None)\<rparr>"
proof -
  obtain kvs where p: "p = JObj kvs" using plan_steps_obj [OF ps] by blast
  have t: "truthy (Some p)" "typeof_object (Some p)" using p by simp_all
  have ne: "ss \<noteq> []" using l1 by auto
  show ?thesis
    using ps ne l2 t validate_steps_ok [OF nn, of 0 "[]"]
    by (simp add: validatePlan_def MAX_STEPS_def stamped_def Let_def)
qed

lemma validatePlan_bad_length:
  assumes ps: "plan_steps p = Some (JArr ss)" and l: "length ss = 0 \<or> length ss > 10"
  shows "validatePlan uuid (Some p) =
     Inr \<lparr>valid = False,
          errors = [if length ss > 10 then TooManySteps (length ss) else NoSteps],
          vplan = None\<rparr>"
proof -
  obtain kvs where p: "p = JObj kvs" using plan_steps_obj [OF ps] by blast
  have t: "truthy (Some p)" "typeof_object (Some p)" using p by simp_all
  show ?thesis using ps l t by (auto simp: validatePlan_def MAX_STEPS_def Let_def)
qed

lemma validated_shape:
  assumes v: "validatePlan uuid x = Inr v" and ok: "valid v"
  shows "\<exists>p ss. x = Some p \<and> plan_steps p = Some (JArr ss) \<and> JNull \<notin> set ss
           \<and> 1 \<le> length ss \<and> length ss \<le> 10 \<and> (\<forall>st \<in> set ss. step_ok st)
           \<and> vplan v = Some (stamped uuid p ss)"
proof -
  obtain p where x: "x = Some p" using v ok by (cases x) (auto simp: validatePlan_def)
  have t: "truthy (Some p)" "typeof_object (Some p)"
    using v ok x by (auto simp: validatePlan_def split: if_splits)
  obtain ss where ps: "plan_steps p = Some (JArr ss)"
    using v ok x t by (auto simp: validatePlan_def split: option.splits json.splits)
  have len: "1 \<le> length ss \<and> length ss \<le> 10"
  proof (rule ccontr)
    assume "\<not> (1 \<le> length ss \<and> length ss \<le> 10)"
    then have "length ss = 0 \<or> length ss > 10" by arith
    from validatePlan_bad_length [OF ps this, of uuid] v ok x show False by auto
  qed
  have nn: "JNull \<notin> set ss"
  proof
    assume "JNull \<in> set ss"
    moreover have "ss \<noteq> []" using len by auto
    ultimately show False
      using validate_steps_null [of ss 0 "[]"] v x ps t len
      by (simp add: validatePlan_def MAX_STEPS_def Let_def)
  qed
  from validatePlan_steps [OF ps nn, of uuid] len v x ok
  have "all_step_errors 0 ss = []" "vplan v = Some (stamped uuid p ss)"
    by (auto split: if_splits)
  then show ?thesis using x ps nn len all_step_errors_empty [of 0 ss] by blast
qed

lemma stamped_steps:
  "plan_steps p = Some (JArr ss) \<Longrightarrow> get_prop (stamped uuid p ss) ''steps'' = Some (JArr ss)"
proof -
  assume "plan_steps p = Some (JArr ss)"
  then obtain kvs where p: "p = JObj kvs" using plan_steps_obj by blast
  show ?thesis by (simp add: p stamped_def Let_def update_conv')
qed

lemma stamped_obj: "plan_steps p = Some a \<Longrightarrow> \<exists>kvs. stamped uuid p ss = JObj kvs"
proof -
  assume "plan_steps p = Some a"
  then obtain kvs where p: "p = JObj kvs" using plan_steps_obj by blast
  show ?thesis by (simp add: p stamped_def Let_def)
qed

lemma step_ok_obj: "step_ok st \<Longrightarrow> \<exists>kvs. st = JObj kvs"
  by (cases st) (auto simp: step_ok_def)

section \<open>What the safety layer returns\<close>

lemma keyword_loop_eq:
  "keyword_loop i ps kws (vs, step) =
     (vs @ map (Violation (i + 1)) (filter (str_includes ps) kws),
      if filter (str_includes ps) kws = [] then step
      else set_prop step ''safety_check'' (JStr ''blocked''))"
  by (induction kws arbitrary: vs step) (auto simp: set_prop_idem)

lemma check_step_eq:
  "check_step i step vs =
     (vs @ map (Violation (i + 1)) (step_hits step),
      mark_passed (if step_hits step = [] then step
                   else set_prop step ''safety_check'' (JStr ''blocked'')))"
  by (simp add: check_step_def keyword_loop_eq step_hits_def)

lemma check_result_eq:
  "check_result step = mark_passed (if step_hits step = [] then step
                                else set_prop step ''safety_check'' (JStr ''blocked''))"
  by (simp add: check_result_def check_step_eq)

lemma safety_loop_eq:
  "safety_loop i ss vs = (vs @ hit_violations i ss, map check_result ss)"
  by (induction ss arbitrary: i vs) (simp_all add: check_step_eq check_result_def)

lemma hit_violations_empty:
  "(hit_violations i ss = []) = (\<forall>st \<in> set ss. step_hits st = [])"
  by (induction ss arbitrary: i) auto

lemma hit_violations_set:
  "set (hit_violations i ss) = {Violation (i + j + 1) kw | j kw. j < length ss \<and> kw \<in> set (step_hits (ss ! j))}"
proof (induction ss arbitrary: i)
  case Nil
  then show ?case by simp
next
  case (Cons st ss)
  have "{Violation (i + j + 1) kw | j kw. j < length (st # ss) \<and> kw \<in> set (step_hits ((st # ss) ! j))}
       = {Violation (i + 1) kw | kw. kw \<in> set (step_hits st)}
         \<union> {Violation (Suc i + j + 1) kw | j kw. j < length ss \<and> kw \<in> set (step_hits (ss ! j))}"
    (is "?A = ?B \<union> ?C")
  proof
    show "?A \<subseteq> ?B \<union> ?C"
    proof
      fix v assume "v \<in> ?A"
      then obtain j kw where v: "v = Violation (i + j + 1) kw" "j < length (st # ss)"
        "kw \<in> set (step_hits ((st # ss) ! j))" by blast
      show "v \<in> ?B \<union> ?C"
      proof (cases j)
        case 0
        then show ?thesis using v by simp
      next
        case (Suc j')
        then have "v = Violation (Suc i + j' + 1) kw" "j' < length ss" "kw \<in> set (step_hits (ss ! j'))"
          using v by simp_all
        then show ?thesis by blast
      qed
    qed
    show "?B \<union> ?C \<subseteq> ?A"
    proof
      fix v assume "v \<in> ?B \<union> ?C"
      then consider (b) "v \<in> ?B" | (c) "v \<in> ?C" by blast
      then show "v \<in> ?A"
      proof cases
        case b
        then obtain kw where "v = Violation (i + 0 + 1) kw" "0 < length (st # ss)"
          "kw \<in> set (step_hits ((st # ss) ! 0))" by auto
        then show ?thesis by blast
      next
        case c
        then obtain j kw where "v = Violation (i + Suc j + 1) kw" "Suc j < length (st # ss)"
          "kw \<in> set (step_hits ((st # ss) ! Suc j))" by auto
        then show ?thesis by blast
      qed
    qed
  qed
  then show ?case using Cons.IH [of "Suc i"] by auto
qed

lemma mark_passed_obj:
  "get_prop (mark_passed (JObj kvs)) ''safety_check'' =
     (if get_prop (JObj kvs) ''safety_check'' = Some (JStr ''blocked'')
      then Some (JStr ''blocked'') else Some (JStr ''passed''))"
  by (simp add: mark_passed_def update_conv')

lemma runSafetyCheck_eq:
  assumes "get_prop p ''steps'' = Some (JArr ss)" "JNull \<notin> set ss"
  shows "runSafetyCheck p =
     Inr \<lparr>safe = (\<forall>st \<in> set ss. step_hits st = []),
          violations = hit_violations 0 ss,
          splan = set_prop p ''steps'' (JArr (map check_result ss))\<rparr>"
  using assms hit_violations_empty [of 0 ss]
  by (simp add: runSafetyCheck_def safety_loop_eq)

lemma check_result_hit:
  "step_hits (JObj kvs) \<noteq> [] \<Longrightarrow> get_prop (check_result (JObj kvs)) ''safety_check'' = Some (JStr ''blocked'')"
  by (simp add: check_result_eq mark_passed_def update_conv')

lemma check_result_no_hit:
  "step_hits (JObj kvs) = [] \<Longrightarrow> get_prop (JObj kvs) ''safety_check'' \<noteq> Some (JStr ''blocked'')
   \<Longrightarrow> get_prop (check_result (JObj kvs)) ''safety_check'' = Some (JStr ''passed'')"
  by (simp add: check_result_eq mark_passed_def update_conv')

lemma check_result_preblocked:
  "step_hits st = [] \<Longrightarrow> get_prop st ''safety_check'' = Some (JStr ''blocked'')
   \<Longrightarrow> check_result st = st"
  by (simp add: check_result_eq mark_passed_def)

lemma assign_obj: "assign_transaction_id pj tid = JObj kvs \<Longrightarrow> \<exists>kvs'. pj = JObj kvs'"
  by (cases pj) (auto simp: assign_transaction_id_def split: option.splits)

text \<open>
  Claim C2. A step that arrives with \<^verbatim>\<open>safety_check\<close> already \<^verbatim>\<open>'blocked'\<close> and whose
  serialised parameters contain no denylisted keyword is left marked \<^verbatim>\<open>'blocked'\<close>, not
  \<^verbatim>\<open>'passed'\<close>, and no violation names it; when no step of the plan has a hit the result
  is safe with no violations, although that step is not marked \<^verbatim>\<open>'passed'\<close>.
\<close>

theorem safety_check_passes_over_blocked:
  assumes st: "get_prop p ''steps'' = Some (JArr ss)" and nn: "JNull \<notin> set ss"
    and i: "i < length ss"
    and pre: "get_prop (ss ! i) ''safety_check'' = Some (JStr ''blocked'')"
    and nohit: "step_hits (ss ! i) = []"
  shows "\<exists>r ss'. runSafetyCheck p = Inr r
           \<and> get_prop (splan r) ''steps'' = Some (JArr ss') \<and> length ss' = length ss
           \<and> get_prop (ss' ! i) ''safety_check'' = Some (JStr ''blocked'')
           \<and> get_prop (ss' ! i) ''safety_check'' \<noteq> Some (JStr ''passed'')
           \<and> (\<forall>kw. Violation (i + 1) kw \<notin> set (violations r))
           \<and> ((\<forall>st \<in> set ss. step_hits st = []) \<longrightarrow> safe r \<and> violations r = [])"
proof -
  obtain kvs where p: "p = JObj kvs" using st by (cases p) auto
  let ?r = "\<lparr>safe = (\<forall>st \<in> set ss. step_hits st = []), violations = hit_violations 0 ss,
             splan = set_prop p ''steps'' (JArr (map check_result ss))\<rparr>"
  have r: "runSafetyCheck p = Inr ?r" using runSafetyCheck_eq [OF st nn] .
  have g: "get_prop (splan ?r) ''steps'' = Some (JArr (map check_result ss))"
    by (simp add: p update_conv')
  have same: "map check_result ss ! i = ss ! i"
    using i check_result_preblocked [OF nohit pre] by simp
  have nov: "Violation (i + 1) kw \<notin> set (hit_violations 0 ss)" for kw
    using nohit by (auto simp: hit_violations_set)
  have all: "(\<forall>st \<in> set ss. step_hits st = []) \<longrightarrow> safe ?r \<and> violations ?r = []"
    by (simp add: hit_violations_empty)
  show ?thesis
    using r g same pre nov all
    by (intro exI [of _ ?r] exI [of _ "map check_result ss"]) simp
qed

lemma pre_facts:
  "get_prop preblocked_plan ''steps'' = Some (JArr [preblocked_step])"
  "JNull \<notin> set [preblocked_step]"
  "get_prop ([preblocked_step] ! 0) ''safety_check'' = Some (JStr ''blocked'')"
  by (simp_all add: preblocked_plan_def preblocked_step_def)

lemma pre_hits: "step_hits preblocked_step = []"
  by code_simp

theorem safety_check_passes_over_blocked_witness:
  "\<exists>r ss'. runSafetyCheck preblocked_plan = Inr r
      \<and> get_prop (splan r) ''steps'' = Some (JArr ss')
      \<and> get_prop (ss' ! 0) ''safety_check'' = Some (JStr ''blocked'')
      \<and> safe r \<and> violations r = []"
proof -
  have h: "step_hits ([preblocked_step] ! 0) = []" using pre_hits by simp
  have a: "\<forall>st \<in> set [preblocked_step]. step_hits st = []" using pre_hits by simp
  from safety_check_passes_over_blocked [OF pre_facts(1) pre_facts(2) _ pre_facts(3) h] a
  show ?thesis by fastforce
qed

lemma pipeline_blocked:
  assumes "truthy (Some pj)" "validatePlan uuid (Some (assign_transaction_id pj tid)) = Inr v"
    "valid v" "vplan v = Some p" "runSafetyCheck p = Inr r" "\<not> safe r"
  shows "handleChatbotResponse R I uuid (Some pj) tid (s, w) =
     (s, w, [AddLog (L_chatbot_response tid), BroadcastToPopup P_chatbot_raw,
             AddLog (L_blocked (violations r)), SendToDesktop (D_status_blocked tid (violations r)),
             BroadcastToPopup (P_execution_blocked (violations r))])"
  using assms by (simp add: handleChatbotResponse_def)

lemma pipeline_invalid:
  assumes "truthy (Some pj)" "validatePlan uuid (Some (assign_transaction_id pj tid)) = Inr v"
    "\<not> valid v"
  shows "handleChatbotResponse R I uuid (Some pj) tid (s, w) =
     (s, w, [AddLog (L_chatbot_response tid), BroadcastToPopup P_chatbot_raw,
             AddLog (L_validation_errors (errors v)),
             SendToDesktop (D_status_error_validation tid (errors v)),
             BroadcastToPopup (P_execution_error_validation (errors v))])"
  using assms by (simp add: handleChatbotResponse_def)

text \<open>
  Claim C1, amended. For every validated plan, \<^verbatim>\<open>runSafetyCheck\<close> returns \<^verbatim>\<open>safe = false\<close>
  exactly when the lower-cased serialised parameters of some step contain a denylisted
  keyword; the violations are one message for each step and keyword found in it; a step
  with a hit is marked \<^verbatim>\<open>'blocked'\<close>; a step without a hit that did not arrive marked
  \<^verbatim>\<open>'blocked'\<close> is marked \<^verbatim>\<open>'passed'\<close>; and when the result is unsafe the handler of the
  chatbot's answer reports the block and returns with the state and the browser as they
  were, no step having been run.
\<close>

theorem safety_check_blocks_plan:
  assumes v: "validatePlan uuid (Some (assign_transaction_id pj tid)) = Inr v" and ok: "valid v"
  shows "\<exists>p ss r. vplan v = Some p \<and> get_prop p ''steps'' = Some (JArr ss)
       \<and> runSafetyCheck p = Inr r
       \<and> (\<not> safe r) = (\<exists>st \<in> set ss. step_hits st \<noteq> [])
       \<and> violations r = hit_violations 0 ss
       \<and> get_prop (splan r) ''steps'' = Some (JArr (map check_result ss))
       \<and> (\<forall>st \<in> set ss.
            (step_hits st \<noteq> [] \<longrightarrow>
               get_prop (check_result st) ''safety_check'' = Some (JStr ''blocked''))
          \<and> (step_hits st = [] \<and> get_prop st ''safety_check'' \<noteq> Some (JStr ''blocked'') \<longrightarrow>
               get_prop (check_result st) ''safety_check'' = Some (JStr ''passed'')))
       \<and> (\<not> safe r \<longrightarrow>
            handleChatbotResponse R I uuid (Some pj) tid (s, w) =
              (s, w, [AddLog (L_chatbot_response tid), BroadcastToPopup P_chatbot_raw,
                      AddLog (L_blocked (violations r)),
                      SendToDesktop (D_status_blocked tid (violations r)),
                      BroadcastToPopup (P_execution_blocked (violations r))]))"
proof -
  from validated_shape [OF v ok] obtain x ss where
    x: "assign_transaction_id pj tid = x" and ps: "plan_steps x = Some (JArr ss)"
    and nn: "JNull \<notin> set ss" and oks: "\<forall>st \<in> set ss. step_ok st"
    and vp: "vplan v = Some (stamped uuid x ss)" by auto
  let ?p = "stamped uuid x ss"
  obtain kvs where xo: "x = JObj kvs" using plan_steps_obj [OF ps] by blast
  then obtain kvs' where pjo: "pj = JObj kvs'" using assign_obj x by blast
  have tp: "truthy (Some pj)" using pjo by simp
  have st: "get_prop ?p ''steps'' = Some (JArr ss)" using stamped_steps [OF ps] .
  obtain pk where po: "?p = JObj pk" using stamped_obj [OF ps] by blast
  let ?r = "\<lparr>safe = (\<forall>st \<in> set ss. step_hits st = []), violations = hit_violations 0 ss,
             splan = set_prop ?p ''steps'' (JArr (map check_result ss))\<rparr>"
  have r: "runSafetyCheck ?p = Inr ?r" using runSafetyCheck_eq [OF st nn] .
  have g: "get_prop (splan ?r) ''steps'' = Some (JArr (map check_result ss))"
    by (simp add: po update_conv')
  have marks: "\<forall>st \<in> set ss.
            (step_hits st \<noteq> [] \<longrightarrow>
               get_prop (check_result st) ''safety_check'' = Some (JStr ''blocked''))
          \<and> (step_hits st = [] \<and> get_prop st ''safety_check'' \<noteq> Some (JStr ''blocked'') \<longrightarrow>
               get_prop (check_result st) ''safety_check'' = Some (JStr ''passed''))"
  proof
    fix st assume "st \<in> set ss"
    then obtain sk where "st = JObj sk" using oks step_ok_obj by blast
    then show "(step_hits st \<noteq> [] \<longrightarrow>
               get_prop (check_result st) ''safety_check'' = Some (JStr ''blocked''))
          \<and> (step_hits st = [] \<and> get_prop st ''safety_check'' \<noteq> Some (JStr ''blocked'') \<longrightarrow>
               get_prop (check_result st) ''safety_check'' = Some (JStr ''passed''))"
      using check_result_hit check_result_no_hit by blast
  qed
  have blocked: "\<not> safe ?r \<longrightarrow>
            handleChatbotResponse R I uuid (Some pj) tid (s, w) =
              (s, w, [AddLog (L_chatbot_response tid), BroadcastToPopup P_chatbot_raw,
                      AddLog (L_blocked (violations ?r)),
                      SendToDesktop (D_status_blocked tid (violations ?r)),
                      BroadcastToPopup (P_execution_blocked (violations ?r))])"
    using pipeline_blocked [OF tp v ok _ r, of R I s w] vp x by blast
  have iff: "(\<not> safe ?r) = (\<exists>st \<in> set ss. step_hits st \<noteq> [])" by simp
  have viol: "violations ?r = hit_violations 0 ss" by simp
  show ?thesis
    apply (rule exI [of _ ?p], rule exI [of _ ss], rule exI [of _ ?r])
    using vp st r iff viol g marks blocked by blast
qed

theorem safety_check_blocks_plan_witness:
  "\<exists>v p r. validatePlan ''u'' (Some (assign_transaction_id unsafe_plan (Some ''t1''))) = Inr v
     \<and> valid v \<and> vplan v = Some p \<and> runSafetyCheck p = Inr r \<and> \<not> safe r
     \<and> violations r = [Violation 1 ''delete'']
     \<and> handleChatbotResponse idle_runner no_interference ''u'' (Some unsafe_plan) (Some ''t1'')
          (initial_state, ())
        = (initial_state, (),
           [AddLog (L_chatbot_response (Some ''t1'')), BroadcastToPopup P_chatbot_raw,
            AddLog (L_blocked [Violation 1 ''delete'']),
            SendToDesktop (D_status_blocked (Some ''t1'') [Violation 1 ''delete'']),
            BroadcastToPopup (P_execution_blocked [Violation 1 ''delete''])])"
proof -
  let ?v = "\<lparr>valid = True, errors = [],
             vplan = Some (JObj [(''steps'', JArr unsafe_steps), (''transaction_id'', JStr ''t1'')])\<rparr>"
  have v: "validatePlan ''u'' (Some (assign_transaction_id unsafe_plan (Some ''t1''))) = Inr ?v"
    by code_simp
  have ok: "valid ?v" by simp
  from safety_check_blocks_plan [OF v ok, of idle_runner no_interference initial_state "()"]
  obtain p ss r where
    p: "vplan ?v = Some p" and ss: "get_prop p ''steps'' = Some (JArr ss)"
    and r: "runSafetyCheck p = Inr r"
    and unsafe: "(\<not> safe r) = (\<exists>st \<in> set ss. step_hits st \<noteq> [])"
    and viol: "violations r = hit_violations 0 ss"
    and blocked: "\<not> safe r \<longrightarrow>
            handleChatbotResponse idle_runner no_interference ''u'' (Some unsafe_plan) (Some ''t1'')
              (initial_state, ()) =
              (initial_state, (), [AddLog (L_chatbot_response (Some ''t1'')), BroadcastToPopup P_chatbot_raw,
                      AddLog (L_blocked (violations r)),
                      SendToDesktop (D_status_blocked (Some ''t1'') (violations r)),
                      BroadcastToPopup (P_execution_blocked (violations r))])"
    by blast
  have sse: "ss = unsafe_steps" using p ss by auto
  have hv: "hit_violations 0 unsafe_steps = [Violation 1 ''delete'']" by code_simp
  have ns: "\<not> safe r" using unsafe viol hv sse hit_violations_empty [of 0 ss] by auto
  show ?thesis using v ok p r ns viol hv sse blocked by auto
qed

text \<open>
  The claim as stated fails on a validated plan whose only step arrives marked
  \<^verbatim>\<open>'blocked'\<close> with harmless parameters: the step has no hit, yet it is left
  \<^verbatim>\<open>'blocked'\<close> rather than marked \<^verbatim>\<open>'passed'\<close>, the plan is safe, and the blocked step
  is run.
\<close>

theorem safety_check_blocked_step_counterexample:
  "validatePlan ''u'' (Some preblocked_plan)
     = Inr \<lparr>valid = True, errors = [], vplan = Some preblocked_plan\<rparr>
   \<and> step_hits preblocked_step = []
   \<and> runSafetyCheck preblocked_plan
     = Inr \<lparr>safe = True, violations = [], splan = preblocked_plan\<rparr>
   \<and> get_prop preblocked_step ''safety_check'' = Some (JStr ''blocked'')
   \<and> get_prop preblocked_step ''safety_check'' \<noteq> Some (JStr ''passed'')
   \<and> SendToDesktop (D_status_step None 1 1 (Some (JStr ''wait'')))
       \<in> set (snd (snd (handleChatbotResponse idle_runner no_interference ''u''
                          (Some preblocked_plan) None (initial_state, ()))))"
  by code_simp

section \<open>The executor\<close>

lemma dispatched_append: "dispatched (a @ b) = dispatched a @ dispatched b"
  by (induction a rule: dispatched.induct) simp_all

lemma completions_append: "completions (a @ b) = completions a @ completions b"
  by (induction a rule: completions.induct) simp_all

lemma logged_failures_append: "logged_failures (a @ b) = logged_failures a @ logged_failures b"
  by (induction a rule: logged_failures.induct) simp_all

lemma terminal_append: "terminal (a @ b) = terminal a @ terminal b"
  by (induction a rule: terminal.induct) simp_all

lemma run_free_append: "run_free (a @ b) = (run_free a \<and> run_free b)"
  by (auto simp: run_free_def dispatched_append completions_append logged_failures_append
        terminal_append)

lemma run_free_Nil: "run_free []"
  by (simp add: run_free_def)

lemma match_loop_run_free:
  "run_free evs \<Longrightarrow> run_free (snd (snd (match_loop url category now rs (st, matched, evs))))"
proof (induction rs arbitrary: st matched evs)
  case Nil
  then show ?case by simp
next
  case (Cons r rs)
  have f: "run_free (fireRuleTrigger x)" for x by (simp add: fireRuleTrigger_def run_free_def)
  have c: "run_free [AddLog (L_rule_cooldown x)]" for x by (simp add: run_free_def)
  show ?case using Cons.prems f c
    by (auto simp: run_free_append split: option.splits intro!: Cons.IH)
qed

lemma inactive_loop_run_free: "run_free (snd (inactive_loop matched st))"
proof (induction st)
  case Nil
  then show ?case by (simp add: run_free_def)
next
  case (Cons a st)
  obtain k rs where a: "a = (k, rs)" by (cases a)
  obtain st' evs where r: "inactive_loop matched st = (st', evs)" by (cases "inactive_loop matched st")
  have "run_free (AddLog (L_rule_inactive k) # evs) = run_free evs" by (simp add: run_free_def)
  then show ?case using Cons.IH a r by simp
qed

lemma checkRules_run_free: "run_free (snd (checkRulesAgainstUrl url category now s))"
proof (cases "length (registeredRules s) = 0")
  case True
  then show ?thesis by (simp add: checkRulesAgainstUrl_def run_free_def)
next
  case False
  obtain st1 matched evs1 where m: "match_loop url category now (registeredRules s)
      (triggeredRulesState s, [], []) = (st1, matched, evs1)"
    by (cases "match_loop url category now (registeredRules s) (triggeredRulesState s, [], [])") auto
  obtain st2 evs2 where i: "inactive_loop matched st1 = (st2, evs2)"
    by (cases "inactive_loop matched st1")
  have "run_free evs1"
    using match_loop_run_free [OF run_free_Nil, of url category now "registeredRules s"
        "triggeredRulesState s" "[]"] m by simp
  moreover have "run_free evs2" using inactive_loop_run_free [of matched st1] i by simp
  ultimately show ?thesis using False m i
    by (simp add: checkRulesAgainstUrl_def run_free_append)
qed

lemma checkRules_keeps_kill:
  "killSwitchActive (fst (checkRulesAgainstUrl url category now s)) = killSwitchActive s"
  by (simp add: checkRulesAgainstUrl_def Let_def split: prod.splits)

lemma checkRules_keeps_exec:
  "currentExecution (fst (checkRulesAgainstUrl url category now s)) = currentExecution s"
  by (simp add: checkRulesAgainstUrl_def Let_def split: prod.splits)

lemma prompt_keeps_exec:
  "currentExecution (fst (handlePromptExecution uuid pl s)) = currentExecution s"
  by (simp add: handlePromptExecution_def Let_def)

lemma prompt_run_free: "run_free (snd (handlePromptExecution uuid pl s))"
  by (simp add: handlePromptExecution_def Let_def run_free_def)

text \<open>What a handler other than that of the chatbot's answer does: the browser and the
  active execution stay as they are, no event of a run is emitted, and the kill switch
  changes only by the kill message, which sets it.\<close>

lemma handle_other:
  assumes "\<not> is_chatbot_response m"
  shows "fst (snd (handle R I uuid m (s, w))) = w
     \<and> currentExecution (fst (handle R I uuid m (s, w))) = currentExecution s
     \<and> run_free (snd (snd (handle R I uuid m (s, w))))
     \<and> killSwitchActive (fst (handle R I uuid m (s, w)))
         = (m = M_kill_switch \<or> killSwitchActive s)"
proof (cases m)
  case M_kill_switch
  then show ?thesis by (simp add: with_world_def handleKillSwitch_def run_free_def)
next
  case (M_execute_prompt pl)
  then show ?thesis
    by (simp add: with_world_def submit_kill prompt_keeps_exec prompt_run_free)
next
  case (M_register_triggers rs)
  then show ?thesis
    by (simp add: with_world_def handleRegisterTriggers_def run_free_def split: option.splits)
next
  case (M_chatbot_response parsed tid)
  then show ?thesis using assms by simp
next
  case (M_url_observed url category now)
  then show ?thesis
    by (simp add: with_world_def checkRules_keeps_kill checkRules_keeps_exec checkRules_run_free)
next
  case M_ws_open
  then show ?thesis by (simp add: with_world_def ws_onopen_def run_free_def)
next
  case M_ws_close
  then show ?thesis
    by (simp add: with_world_def ws_onclose_def scheduleReconnect_def Let_def run_free_def)
qed

lemma handle_all_others:
  assumes "list_all (\<lambda>m. \<not> is_chatbot_response m) ms"
  shows "fst (snd (handle_all R I uuid ms (s, w))) = w
     \<and> currentExecution (fst (handle_all R I uuid ms (s, w))) = currentExecution s
     \<and> run_free (snd (snd (handle_all R I uuid ms (s, w))))
     \<and> killSwitchActive (fst (handle_all R I uuid ms (s, w)))
         = (M_kill_switch \<in> set ms \<or> killSwitchActive s)"
  using assms
proof (induction ms arbitrary: s w)
  case Nil
  then show ?case by (simp add: run_free_def)
next
  case (Cons m ms)
  obtain s1 w1 evs1 where h: "handle R I uuid m (s, w) = (s1, w1, evs1)"
    by (cases "handle R I uuid m (s, w)")
  obtain s2 w2 evs2 where r: "handle_all R I uuid ms (s1, w1) = (s2, w2, evs2)"
    by (cases "handle_all R I uuid ms (s1, w1)")
  have nm: "\<not> is_chatbot_response m" and rest: "list_all (\<lambda>m. \<not> is_chatbot_response m) ms"
    using Cons.prems by simp_all
  from handle_other [OF nm, of R I uuid s w] h
  have a: "w1 = w" "currentExecution s1 = currentExecution s" "run_free evs1"
    "killSwitchActive s1 = (m = M_kill_switch \<or> killSwitchActive s)" by simp_all
  from Cons.IH [OF rest, of s1 w1] r
  have b: "w2 = w1" "currentExecution s2 = currentExecution s1" "run_free evs2"
    "killSwitchActive s2 = (M_kill_switch \<in> set ms \<or> killSwitchActive s1)" by simp_all
  show ?case using h r a b by (auto simp: run_free_append)
qed

lemma exec_loop_keeps_kill:
  "killSwitchActive s \<Longrightarrow> killSwitchActive (fst (exec_loop R I tid n i ss (s, w, tr)))"
  by (cases ss) simp_all

lemma executeBrowserPlan_keeps_kill:
  "executeBrowserPlan R I tid ss (s, w) = (s', w', tr) \<Longrightarrow> killSwitchActive s
   \<Longrightarrow> killSwitchActive s'"
  using exec_loop_keeps_kill
    [of "s\<lparr>currentExecution := Some \<lparr>transactionId = tid, steps = ss, currentStep = 0\<rparr>\<rparr>"
        R I tid "length ss" 0 ss w "[]"]
  by (simp add: executeBrowserPlan_def)

lemma handleChatbotResponse_keeps_kill:
  "killSwitchActive s \<Longrightarrow>
   killSwitchActive (fst (handleChatbotResponse R I uuid parsed tid (s, w)))"
  by (auto simp: handleChatbotResponse_def Let_def
           split: option.splits sum.splits json.splits prod.splits
           dest: executeBrowserPlan_keeps_kill)

lemma handle_keeps_kill:
  assumes k: "killSwitchActive s"
  shows "killSwitchActive (fst (handle R I uuid m (s, w)))"
proof (cases "is_chatbot_response m")
  case True
  then obtain parsed tid where "m = M_chatbot_response parsed tid" by (cases m) auto
  then show ?thesis using handleChatbotResponse_keeps_kill [OF k] by simp
next
  case False
  then show ?thesis using handle_other [OF False, of R I uuid s w] k by simp
qed

lemma handle_all_Cons_fst:
  "handle R I uuid m (s, w) = (s1, w1, evs1) \<Longrightarrow>
   fst (handle_all R I uuid (m # ms) (s, w)) = fst (handle_all R I uuid ms (s1, w1))"
  by (simp split: prod.splits)

lemma handle_all_keeps_kill:
  "killSwitchActive s \<Longrightarrow> killSwitchActive (fst (handle_all R I uuid ms (s, w)))"
proof (induction ms arbitrary: s w)
  case Nil
  then show ?case by simp
next
  case (Cons m ms)
  obtain s1 w1 evs1 where h: "handle R I uuid m (s, w) = (s1, w1, evs1)"
    by (cases "handle R I uuid m (s, w)")
  have "killSwitchActive s1" using handle_keeps_kill [OF Cons.prems, of R I uuid m w] h by simp
  from Cons.IH [OF this, of w1] show ?case by (simp only: handle_all_Cons_fst [OF h])
qed

lemma handle_all_kill:
  "M_kill_switch \<in> set ms \<Longrightarrow> killSwitchActive (fst (handle_all R I uuid ms (s, w)))"
proof (induction ms arbitrary: s w)
  case Nil
  then show ?case by simp
next
  case (Cons m ms)
  obtain s1 w1 evs1 where h: "handle R I uuid m (s, w) = (s1, w1, evs1)"
    by (cases "handle R I uuid m (s, w)")
  show ?case
  proof (cases "m = M_kill_switch")
    case True
    then have "killSwitchActive s1" using h by (auto simp: with_world_def handleKillSwitch_def)
    from handle_all_keeps_kill [OF this, of R I uuid ms w1] show ?thesis
      by (simp only: handle_all_Cons_fst [OF h])
  next
    case False
    then have "M_kill_switch \<in> set ms" using Cons.prems by simp
    from Cons.IH [OF this, of s1 w1] show ?thesis by (simp only: handle_all_Cons_fst [OF h])
  qed
qed

lemma failures_Cons: "failures (x # xs) = failures [x] @ failures xs"
  by (cases x; cases "snd x") auto

lemma run_step_eq:
  "\<exists>ev. run_step R I tid n i st (s, w, tr) =
          (fst (I i (s, snd (R st w))), fst (snd (I i (s, snd (R st w)))),
           tr @ ev @ snd (snd (I i (s, snd (R st w)))) @
             (case fst (R st w) of
                None \<Rightarrow> [BroadcastToPopup (P_step_complete i True None)]
              | Some msg \<Rightarrow> [AddLog (L_step_failed (i + 1) msg),
                             BroadcastToPopup (P_step_complete i False (Some msg))]))
        \<and> dispatched ev = [i] \<and> completions ev = [] \<and> logged_failures ev = []
        \<and> terminal ev = []"
  by (cases "R st w"; cases "I i (s, snd (R st w))") (auto simp: run_step_def)

lemma step_report:
  "dispatched (case r of None \<Rightarrow> [BroadcastToPopup (P_step_complete i True None)]
                | Some msg \<Rightarrow> [AddLog (L_step_failed (i + 1) msg),
                               BroadcastToPopup (P_step_complete i False (Some msg))]) = []
   \<and> completions (case r of None \<Rightarrow> [BroadcastToPopup (P_step_complete i True None)]
                | Some msg \<Rightarrow> [AddLog (L_step_failed (i + 1) msg),
                               BroadcastToPopup (P_step_complete i False (Some msg))]) = [(i, r)]
   \<and> logged_failures (case r of None \<Rightarrow> [BroadcastToPopup (P_step_complete i True None)]
                | Some msg \<Rightarrow> [AddLog (L_step_failed (i + 1) msg),
                               BroadcastToPopup (P_step_complete i False (Some msg))]) = failures [(i, r)]
   \<and> terminal (case r of None \<Rightarrow> [BroadcastToPopup (P_step_complete i True None)]
                | Some msg \<Rightarrow> [AddLog (L_step_failed (i + 1) msg),
                               BroadcastToPopup (P_step_complete i False (Some msg))]) = []"
  by (cases r) simp_all

text \<open>A step is calm under an interference that leaves the browser and the active
  execution as they are and emits no event of a run.\<close>

lemma run_step_calm:
  assumes calm: "\<forall>s w. fst (snd (I i (s, w))) = B i w
                  \<and> currentExecution (fst (I i (s, w))) = currentExecution s
                  \<and> run_free (snd (snd (I i (s, w))))"
  shows "\<exists>ev. run_step R I tid n i st (s, w, tr)
            = (fst (I i (s, snd (R st w))), B i (snd (R st w)), tr @ ev)
        \<and> currentExecution (fst (I i (s, snd (R st w)))) = currentExecution s
        \<and> dispatched ev = [i] \<and> completions ev = [(i, fst (R st w))]
        \<and> logged_failures ev = failures [(i, fst (R st w))] \<and> terminal ev = []"
proof -
  let ?w1 = "snd (R st w)"
  let ?rep = "case fst (R st w) of
                None \<Rightarrow> [BroadcastToPopup (P_step_complete i True None)]
              | Some msg \<Rightarrow> [AddLog (L_step_failed (i + 1) msg),
                             BroadcastToPopup (P_step_complete i False (Some msg))]"
  obtain ev where ev: "run_step R I tid n i st (s, w, tr) =
          (fst (I i (s, ?w1)), fst (snd (I i (s, ?w1))), tr @ ev @ snd (snd (I i (s, ?w1))) @ ?rep)"
    and p: "dispatched ev = [i]" "completions ev = []" "logged_failures ev = []" "terminal ev = []"
    using run_step_eq [where R = R and I = I and tid = tid and n = n and i = i and st = st
        and s = s and w = w and tr = tr] by blast
  have c: "fst (snd (I i (s, ?w1))) = B i ?w1" "currentExecution (fst (I i (s, ?w1))) = currentExecution s"
    "run_free (snd (snd (I i (s, ?w1))))" using calm by simp_all
  have q: "dispatched (snd (snd (I i (s, ?w1)))) = []" "completions (snd (snd (I i (s, ?w1)))) = []"
    "logged_failures (snd (snd (I i (s, ?w1)))) = []" "terminal (snd (snd (I i (s, ?w1)))) = []"
    using c(3) by (simp_all add: run_free_def)
  note r = step_report [where r = "fst (R st w)" and i = i]
  show ?thesis
    apply (rule exI [of _ "ev @ snd (snd (I i (s, ?w1))) @ ?rep"])
    using ev c p q r
    by (simp add: dispatched_append completions_append logged_failures_append terminal_append)
qed

lemma exec_prefix:
  fixes I :: "'a interference"
  assumes "\<not> killSwitchActive s" "currentExecution s \<noteq> None" "JNull \<notin> set pre"
    and calm: "\<forall>j < length pre. \<forall>s w. fst (snd (I (i + j) (s, w))) = B (i + j) w
                  \<and> currentExecution (fst (I (i + j) (s, w))) = currentExecution s
                  \<and> run_free (snd (snd (I (i + j) (s, w))))"
    and nokill: "\<forall>j. j + 1 < length pre \<longrightarrow>
                  (\<forall>s w. \<not> killSwitchActive s \<longrightarrow> \<not> killSwitchActive (fst (I (i + j) (s, w))))"
  shows "\<exists>s' tr'. exec_loop R I tid n i (pre @ post) (s, w, tr)
            = exec_loop R I tid n (i + length pre) post (s', run_world R B i pre w, tr @ tr')
      \<and> currentExecution s' \<noteq> None
      \<and> ((pre = [] \<and> s' = s) \<or> (pre \<noteq> [] \<and> (\<exists>sp wp. s' = fst (I (i + length pre - 1) (sp, wp)))))
      \<and> dispatched tr' = [i..<i + length pre]
      \<and> completions tr' = outcomes R B i pre w
      \<and> logged_failures tr' = failures (outcomes R B i pre w)
      \<and> terminal tr' = []"
  using assms
proof (induction pre arbitrary: i s w tr)
  case Nil
  show ?case
    by (rule exI [of _ s], rule exI [of _ "[]"]) (use Nil in simp)
next
  case (Cons st rest)
  obtain e where e: "currentExecution s = Some e" using Cons.prems(2) by auto
  let ?s1 = "s\<lparr>currentExecution := Some (e\<lparr>currentStep := i\<rparr>)\<rparr>"
  let ?w1 = "snd (R st w)"
  let ?s2 = "fst (I i (?s1, ?w1))"
  have stn: "st \<noteq> JNull" using Cons.prems(3) by auto
  have calm0: "\<forall>s w. fst (snd (I i (s, w))) = B i w
                  \<and> currentExecution (fst (I i (s, w))) = currentExecution s
                  \<and> run_free (snd (snd (I i (s, w))))"
    using Cons.prems(4) [rule_format, of 0] by simp
  obtain ev where ev: "run_step R I tid n i st (?s1, w, tr) = (?s2, B i ?w1, tr @ ev)"
    and c2e: "currentExecution ?s2 = currentExecution ?s1"
    and evd: "dispatched ev = [i]" and evc: "completions ev = [(i, fst (R st w))]"
    and evl: "logged_failures ev = failures [(i, fst (R st w))]" and evt: "terminal ev = []"
    using run_step_calm [where I = I and B = B and i = i and R = R and tid = tid and n = n
        and st = st and s = ?s1 and w = w and tr = tr] calm0 by blast
  have unfold: "exec_loop R I tid n i ((st # rest) @ post) (s, w, tr)
        = exec_loop R I tid n (i + 1) (rest @ post) (?s2, B i ?w1, tr @ ev)"
    using Cons.prems(1) e stn ev by simp
  have c2: "currentExecution ?s2 \<noteq> None" using c2e by simp
  show ?case
  proof (cases rest)
    case Nil
    show ?thesis
      apply (rule exI [of _ ?s2], rule exI [of _ ev])
      using unfold Nil c2 evd evc evl evt by auto
  next
    case (Cons st' rest')
    have k1: "\<not> killSwitchActive ?s1" using Cons.prems(1) by simp
    have k2: "\<not> killSwitchActive ?s2"
      using Cons.prems(5) [rule_format, of 0 ?s1 ?w1] Cons k1 by simp
    have nn: "JNull \<notin> set rest" using Cons.prems(3) by auto
    have calm': "\<forall>j < length rest. \<forall>s w. fst (snd (I (i + 1 + j) (s, w))) = B (i + 1 + j) w
                  \<and> currentExecution (fst (I (i + 1 + j) (s, w))) = currentExecution s
                  \<and> run_free (snd (snd (I (i + 1 + j) (s, w))))"
    proof (intro allI impI)
      fix j and s :: state and w :: 'a
      assume "j < length rest"
      then have "Suc j < length (st # rest)" by simp
      then show "fst (snd (I (i + 1 + j) (s, w))) = B (i + 1 + j) w
                  \<and> currentExecution (fst (I (i + 1 + j) (s, w))) = currentExecution s
                  \<and> run_free (snd (snd (I (i + 1 + j) (s, w))))"
        using Cons.prems(4) [rule_format, of "Suc j" s w] by simp
    qed
    have nok: "\<forall>j. j + 1 < length rest \<longrightarrow>
                  (\<forall>s w. \<not> killSwitchActive s \<longrightarrow> \<not> killSwitchActive (fst (I (i + 1 + j) (s, w))))"
    proof (intro allI impI)
      fix j and s :: state and w :: 'a
      assume a: "j + 1 < length rest" and b: "\<not> killSwitchActive s"
      from a have "Suc j + 1 < length (st # rest)" by simp
      then show "\<not> killSwitchActive (fst (I (i + 1 + j) (s, w)))"
        using Cons.prems(5) [rule_format, of "Suc j" s w] b by simp
    qed
    from Cons.IH [OF k2 c2 nn calm' nok, of "B i ?w1" "tr @ ev"]
    obtain s' tr' where
      ih: "exec_loop R I tid n (i + 1) (rest @ post) (?s2, B i ?w1, tr @ ev)
            = exec_loop R I tid n (i + 1 + length rest) post
                (s', run_world R B (i + 1) rest (B i ?w1), (tr @ ev) @ tr')"
      and ihc: "currentExecution s' \<noteq> None"
      and ihs: "(rest = [] \<and> s' = ?s2) \<or> (rest \<noteq> [] \<and> (\<exists>sp wp. s' = fst (I (i + 1 + length rest - 1) (sp, wp))))"
      and ihd: "dispatched tr' = [i + 1..<i + 1 + length rest]"
      and ihco: "completions tr' = outcomes R B (i + 1) rest (B i ?w1)"
      and ihl: "logged_failures tr' = failures (outcomes R B (i + 1) rest (B i ?w1))"
      and iht: "terminal tr' = []"
      by blast
    have u: "[i..<i + length (st # rest)] = i # [i + 1..<i + 1 + length rest]"
      by (simp add: upt_conv_Cons del: upt_Suc)
    have d: "dispatched (ev @ tr') = [i..<i + length (st # rest)]"
      unfolding u using evd ihd by (simp only: dispatched_append append_Cons append_Nil)
    have l: "logged_failures (ev @ tr') = failures (outcomes R B i (st # rest) w)"
      using evl ihl failures_Cons [of "(i, fst (R st w))" "outcomes R B (i + 1) rest (B i ?w1)"]
      by (simp add: logged_failures_append)
    have last: "\<exists>sp wp. s' = fst (I (i + length (st # rest) - 1) (sp, wp))"
      using ihs Cons by auto
    show ?thesis
      apply (rule exI [of _ s'], rule exI [of _ "ev @ tr'"])
      using unfold ih ihc d l evc ihco evt iht last
      by (simp add: completions_append terminal_append)
  qed
qed

lemma reentry_freeD:
  "reentry_free E n \<Longrightarrow> j < n \<Longrightarrow> list_all (\<lambda>m. \<not> is_chatbot_response m) (E j)"
  by (simp add: reentry_free_def list_all_iff)

lemma during_calm:
  assumes "list_all (\<lambda>m. \<not> is_chatbot_response m) (E j)"
  shows "fst (snd (during R uuid E B j (s, w))) = B j w
     \<and> currentExecution (fst (during R uuid E B j (s, w))) = currentExecution s
     \<and> run_free (snd (snd (during R uuid E B j (s, w))))
     \<and> killSwitchActive (fst (during R uuid E B j (s, w)))
         = (M_kill_switch \<in> set (E j) \<or> killSwitchActive s)"
  using handle_all_others [OF assms, of R no_interference uuid s "B j w"] by (simp add: during_def)

lemma during_kill:
  "M_kill_switch \<in> set (E j) \<Longrightarrow> killSwitchActive (fst (during R uuid E B j (s, w)))"
  using handle_all_kill [of "E j" R no_interference uuid s "B j w"] by (simp add: during_def)





lemma exec_halts_at_first_kill:
  assumes nn: "JNull \<notin> set ss" and k: "k < length ss" and fk: "first_kill s E k"
    and rf: "reentry_free E k"
  shows "\<exists>s' tr'. executeBrowserPlan R (during R uuid E B) tid ss (s, w) =
           (s', run_world R B 0 (take k ss) w,
            tr' @ [AddLog L_halted, SendToDesktop (D_status_killed tid (k + 1) (length ss)),
                   BroadcastToPopup (P_execution_killed k)])
     \<and> dispatched tr' = [0..<k] \<and> terminal tr' = []
     \<and> currentExecution s' = None \<and> killSwitchActive s'"
proof -
  let ?I = "during R uuid E B"
  let ?s0 = "s\<lparr>currentExecution := Some \<lparr>transactionId = tid, steps = ss, currentStep = 0\<rparr>\<rparr>"
  let ?halt = "[AddLog L_halted, SendToDesktop (D_status_killed tid (k + 1) (length ss)),
                BroadcastToPopup (P_execution_killed k)]"
  obtain st post where post: "drop k ss = st # post" using k by (cases "drop k ss") auto
  have split: "ss = take k ss @ st # post" using post by (metis append_take_drop_id)
  have lt: "length (take k ss) = k" using k by simp
  show ?thesis
  proof (cases "k = 0")
    case True
    then have ks: "killSwitchActive s" using fk by (simp add: first_kill_def)
    have ss: "ss = st # post" using post True by simp
    have "exec_loop R ?I tid (length ss) 0 (st # post) (?s0, w, [])
            = (?s0\<lparr>currentExecution := None\<rparr>, w, [] @ ?halt)"
      using ks True by simp
    then have "executeBrowserPlan R ?I tid ss (s, w)
            = (?s0\<lparr>currentExecution := None\<rparr>, w, [] @ ?halt)"
      using ss by (simp add: executeBrowserPlan_def)
    then show ?thesis
      apply (intro exI [of _ "?s0\<lparr>currentExecution := None\<rparr>"] exI [of _ "[]"])
      using True ks by simp
  next
    case False
    then have f: "\<not> killSwitchActive s" "M_kill_switch \<in> set (E (k - 1))"
      "list_all (\<lambda>j. M_kill_switch \<notin> set (E j)) [0..<k - 1]"
      using fk by (simp_all add: first_kill_def)
    have a: "\<not> killSwitchActive ?s0" "currentExecution ?s0 \<noteq> None" using f by simp_all
    have nnp: "JNull \<notin> set (take k ss)" using nn by (auto dest: in_set_takeD)
    have calm: "\<forall>j < length (take k ss). \<forall>s w. fst (snd (?I (0 + j) (s, w))) = B (0 + j) w
                  \<and> currentExecution (fst (?I (0 + j) (s, w))) = currentExecution s
                  \<and> run_free (snd (snd (?I (0 + j) (s, w))))"
    proof (intro allI impI)
      fix j and s :: state and w :: 'a
      assume "j < length (take k ss)"
      then have "j < k" using lt by simp
      then have "list_all (\<lambda>m. \<not> is_chatbot_response m) (E j)" using reentry_freeD [OF rf] by simp
      from during_calm [where E = E and j = j, OF this, of R uuid B s w]
      show "fst (snd (?I (0 + j) (s, w))) = B (0 + j) w
                  \<and> currentExecution (fst (?I (0 + j) (s, w))) = currentExecution s
                  \<and> run_free (snd (snd (?I (0 + j) (s, w))))" by simp
    qed
    have nokill: "\<forall>j. j + 1 < length (take k ss) \<longrightarrow>
                  (\<forall>s w. \<not> killSwitchActive s \<longrightarrow> \<not> killSwitchActive (fst (?I (0 + j) (s, w))))"
    proof (intro allI impI)
      fix j and s :: state and w :: 'a
      assume j: "j + 1 < length (take k ss)" and kk: "\<not> killSwitchActive s"
      have jk: "j < k" "j < k - 1" using j lt by auto
      have nc: "list_all (\<lambda>m. \<not> is_chatbot_response m) (E j)" using reentry_freeD [OF rf jk(1)] .
      have "M_kill_switch \<notin> set (E j)" using f(3) jk(2) by (simp add: list_all_iff)
      with during_calm [where E = E and j = j, OF nc, of R uuid B s w] kk
      show "\<not> killSwitchActive (fst (?I (0 + j) (s, w)))" by simp
    qed
    from exec_prefix [where B = B, OF a nnp calm nokill, of R tid "length ss" "st # post" w "[]"]
    obtain s' tr' where
      run: "exec_loop R ?I tid (length ss) 0 (take k ss @ st # post) (?s0, w, [])
            = exec_loop R ?I tid (length ss) (0 + length (take k ss)) (st # post)
                (s', run_world R B 0 (take k ss) w, [] @ tr')"
      and last: "(take k ss = [] \<and> s' = ?s0)
          \<or> (take k ss \<noteq> [] \<and> (\<exists>sp wp. s' = fst (?I (0 + length (take k ss) - 1) (sp, wp))))"
      and d: "dispatched tr' = [0..<0 + length (take k ss)]"
      and t: "terminal tr' = []"
      by blast
    have ne: "take k ss \<noteq> []" using False k by (cases ss) auto
    then obtain sp wp where "s' = fst (?I (k - 1) (sp, wp))" using last lt by auto
    then have ks: "killSwitchActive s'"
      using during_kill [where E = E and j = "k - 1", OF f(2), of R uuid B sp wp] by simp
    have "executeBrowserPlan R ?I tid ss (s, w)
            = exec_loop R ?I tid (length ss) 0 (take k ss @ st # post) (?s0, w, [])"
      using split by (simp add: executeBrowserPlan_def)
    then have "executeBrowserPlan R ?I tid ss (s, w)
            = (s'\<lparr>currentExecution := None\<rparr>, run_world R B 0 (take k ss) w, tr' @ ?halt)"
      using run ks lt by simp
    then show ?thesis
      apply (intro exI [of _ "s'\<lparr>currentExecution := None\<rparr>"] exI [of _ tr'])
      using d t ks lt by simp
  qed
qed

lemma run_messages_keeps_kill:
  "killSwitchActive (fst c) \<Longrightarrow> killSwitchActive (fst (run_messages R uuid E B ms c))"
proof (induction ms arbitrary: c)
  case Nil
  then show ?case by simp
next
  case (Cons m ms)
  obtain s w where c: "c = (s, w)" by (cases c)
  obtain s' w' tr where h: "handle R (during R uuid E B) uuid m (s, w) = (s', w', tr)"
    by (cases "handle R (during R uuid E B) uuid m (s, w)")
  have "killSwitchActive s'"
    using handle_keeps_kill [of s R "during R uuid E B" uuid m w] Cons.prems c h by simp
  then show ?case using Cons.IH [of "(s', w')"] c h by simp
qed

text \<open>
  Claim C3. Handling the kill message sets the flag, and no message handled afterwards
  clears it, whatever is handled during the runs those messages start. While it is set,
  a prompt request is refused before anything else happens. In a run of \<open>N\<close> steps, if
  step boundary \<open>k < N\<close> is the first at which the flag is found set, and no second run
  was started while the steps before it were suspended (any other messages may have been
  handled, and the browser may have changed, meanwhile), the executor has handed exactly
  the steps \<open>0..k-1\<close> to the runner, does not hand over step \<open>k\<close>, ends its trace with the
  killed status naming step \<open>k\<close> (as \<open>k + 1\<close> of \<open>N\<close> for the desktop, as index \<open>k\<close> for the
  popup), clears the active execution, and leaves the browser as the steps \<open>0..k-1\<close> and
  the changes during them left it. The schedules in which nothing but kill messages
  arrive and nothing else touches the browser are a special case.
\<close>

theorem kill_switch_sticky_and_halting:
  "killSwitchActive (fst (handleKillSwitch s))
   \<and> (killSwitchActive s \<longrightarrow> killSwitchActive (fst (run_messages R uuid E B ms (s, w))))
   \<and> (killSwitchActive s \<longrightarrow>
        handlePromptExecution uuid pl s = (s, [AddLog L_blocked_kill_switch]))
   \<and> (JNull \<notin> set ss \<and> k < length ss \<and> first_kill s E k \<and> reentry_free E k \<longrightarrow>
        (\<exists>s' tr'. executeBrowserPlan R (during R uuid E B) tid ss (s, w) =
             (s', run_world R B 0 (take k ss) w,
              tr' @ [AddLog L_halted, SendToDesktop (D_status_killed tid (k + 1) (length ss)),
                     BroadcastToPopup (P_execution_killed k)])
           \<and> dispatched tr' = [0..<k] \<and> terminal tr' = []
           \<and> currentExecution s' = None \<and> killSwitchActive s'))"
proof -
  have a: "killSwitchActive (fst (handleKillSwitch s))" by (simp add: handleKillSwitch_def)
  have b: "killSwitchActive s \<longrightarrow> killSwitchActive (fst (run_messages R uuid E B ms (s, w)))"
    using run_messages_keeps_kill [of "(s, w)" R uuid E B ms] by simp
  have c: "killSwitchActive s \<longrightarrow>
        handlePromptExecution uuid pl s = (s, [AddLog L_blocked_kill_switch])"
    by (simp add: handlePromptExecution_def)
  have d: "JNull \<notin> set ss \<and> k < length ss \<and> first_kill s E k \<and> reentry_free E k \<longrightarrow>
        (\<exists>s' tr'. executeBrowserPlan R (during R uuid E B) tid ss (s, w) =
             (s', run_world R B 0 (take k ss) w,
              tr' @ [AddLog L_halted, SendToDesktop (D_status_killed tid (k + 1) (length ss)),
                     BroadcastToPopup (P_execution_killed k)])
           \<and> dispatched tr' = [0..<k] \<and> terminal tr' = []
           \<and> currentExecution s' = None \<and> killSwitchActive s')"
    using exec_halts_at_first_kill [of ss k s E R uuid B tid w] by blast
  from a b c d show ?thesis by blast
qed

lemma three_steps_facts:
  "JNull \<notin> set three_steps" "length three_steps = 3"
  by (simp_all add: three_steps_def)


theorem kill_switch_sticky_and_halting_witness:
  "killSwitchActive (fst (run_messages failing_runner ''u'' busy_schedule ten_more
        [M_ws_close, M_execute_prompt (request ''go'' ''a''), M_ws_open]
        (fst (handleKillSwitch initial_state), 0)))
   \<and> handlePromptExecution ''u'' (request ''go'' ''a'') (fst (handleKillSwitch initial_state))
       = (fst (handleKillSwitch initial_state), [AddLog L_blocked_kill_switch])
   \<and> (\<exists>s' tr'. executeBrowserPlan failing_runner (during failing_runner ''u'' kill_schedule ten_more)
                   (Some ''t1'') three_steps (initial_state, 0)
          = (s', 12, tr' @ [AddLog L_halted, SendToDesktop (D_status_killed (Some ''t1'') 3 3),
                          BroadcastToPopup (P_execution_killed 2)])
        \<and> dispatched tr' = [0, 1] \<and> terminal tr' = []
        \<and> currentExecution s' = None \<and> killSwitchActive s')"
proof -
  let ?sk = "fst (handleKillSwitch initial_state)"
  have ka: "killSwitchActive ?sk" by (simp add: handleKillSwitch_def)
  have fk: "first_kill initial_state kill_schedule 2"
    by (simp add: first_kill_def initial_state_def kill_schedule_def)
  have rf: "reentry_free kill_schedule 2"
    by (simp add: reentry_free_def kill_schedule_def upt_rec)
  have w: "run_world failing_runner ten_more 0 (take 2 three_steps) 0 = 12"
    by (simp add: three_steps_def failing_runner_def ten_more_def)
  have u: "[0..<2] = [0, Suc 0]" by (simp add: upt_rec)
  have h: "JNull \<notin> set three_steps \<and> 2 < length three_steps
      \<and> first_kill initial_state kill_schedule 2 \<and> reentry_free kill_schedule 2"
    using three_steps_facts fk rf by simp
  note t1 = kill_switch_sticky_and_halting
      [where s = ?sk and R = failing_runner and uuid = "''u''" and E = busy_schedule and B = ten_more
         and ms = "[M_ws_close, M_execute_prompt (request ''go'' ''a''), M_ws_open]"
         and w = 0 and pl = "request ''go'' ''a''" and ss = "[]" and k = 0 and tid = None]
  note t2 = kill_switch_sticky_and_halting
      [where s = initial_state and R = failing_runner and uuid = "''u''" and E = kill_schedule and B = ten_more
         and ms = "[]" and w = 0 and pl = None and ss = three_steps and k = 2
         and tid = "Some ''t1''"]
  have p1: "killSwitchActive (fst (run_messages failing_runner ''u'' busy_schedule ten_more
        [M_ws_close, M_execute_prompt (request ''go'' ''a''), M_ws_open] (?sk, 0)))"
    using t1 ka by blast
  have p2: "handlePromptExecution ''u'' (request ''go'' ''a'') ?sk = (?sk, [AddLog L_blocked_kill_switch])"
    using t1 ka by blast
  from t2 h obtain s' tr' where
    "executeBrowserPlan failing_runner (during failing_runner ''u'' kill_schedule ten_more) (Some ''t1'')
        three_steps (initial_state, 0)
       = (s', run_world failing_runner ten_more 0 (take 2 three_steps) 0,
          tr' @ [AddLog L_halted, SendToDesktop (D_status_killed (Some ''t1'') (2 + 1) (length three_steps)),
                 BroadcastToPopup (P_execution_killed 2)])"
    "dispatched tr' = [0..<2]" "terminal tr' = []"
    "currentExecution s' = None" "killSwitchActive s'"
    by blast
  then have "executeBrowserPlan failing_runner (during failing_runner ''u'' kill_schedule ten_more)
                   (Some ''t1'') three_steps (initial_state, 0)
          = (s', 12, tr' @ [AddLog L_halted, SendToDesktop (D_status_killed (Some ''t1'') 3 3),
                          BroadcastToPopup (P_execution_killed 2)])
        \<and> dispatched tr' = [0, 1] \<and> terminal tr' = []
        \<and> currentExecution s' = None \<and> killSwitchActive s'"
    using w u three_steps_facts(2) by simp
  then have p3: "\<exists>s' tr'. executeBrowserPlan failing_runner (during failing_runner ''u'' kill_schedule ten_more)
                   (Some ''t1'') three_steps (initial_state, 0)
          = (s', 12, tr' @ [AddLog L_halted, SendToDesktop (D_status_killed (Some ''t1'') 3 3),
                          BroadcastToPopup (P_execution_killed 2)])
        \<and> dispatched tr' = [0, 1] \<and> terminal tr' = []
        \<and> currentExecution s' = None \<and> killSwitchActive s'"
    by blast
  from p1 p2 p3 show ?thesis by blast
qed

text \<open>
  A second run started while a step of the first is suspended is what the hypothesis
  above excludes: with the example schedule, the second run takes over
  \<^verbatim>\<open>currentExecution\<close> and clears it when it ends, and the first run, resumed, throws at
  \<^verbatim>\<open>currentExecution.currentStep = i\<close> before its second step, with no terminal message
  of its own.
\<close>

lemma second_run_aborts_first:
  "fst (snd (executeBrowserPlan failing_runner (during failing_runner ''u'' reentry_schedule still)
               (Some ''t1'') three_steps (initial_state, 0))) = 2
   \<and> currentExecution (fst (executeBrowserPlan failing_runner
        (during failing_runner ''u'' reentry_schedule still) (Some ''t1'') three_steps (initial_state, 0)))
      = None
   \<and> dispatched (snd (snd (executeBrowserPlan failing_runner
        (during failing_runner ''u'' reentry_schedule still) (Some ''t1'') three_steps (initial_state, 0))))
      = [0, 0]
   \<and> terminal (snd (snd (executeBrowserPlan failing_runner
        (during failing_runner ''u'' reentry_schedule still) (Some ''t1'') three_steps (initial_state, 0))))
      = [D_result_completed None 1]
   \<and> last (snd (snd (executeBrowserPlan failing_runner
        (during failing_runner ''u'' reentry_schedule still) (Some ''t1'') three_steps (initial_state, 0))))
      = Uncaught TypeError"
  by code_simp

section \<open>Validation of step counts and steps\<close>

lemma truthy_not_null: "truthy a \<Longrightarrow> a \<noteq> None \<and> a \<noteq> Some JNull"
  by (cases a rule: truthy.cases) simp_all

lemma step_ok_not_null: "\<forall>st \<in> set ss. step_ok st \<Longrightarrow> JNull \<notin> set ss"
  by (auto simp: step_ok_def)

lemma stamped_transaction_id:
  assumes "plan_steps p = Some (JArr ss)"
  shows "get_prop (stamped uuid p ss) ''transaction_id'' =
           (if truthy (get_prop p ''transaction_id'') then get_prop p ''transaction_id''
            else Some (JStr uuid))"
proof -
  obtain kvs where p: "p = JObj kvs" using plan_steps_obj [OF assms] by blast
  show ?thesis by (simp add: p stamped_def Let_def update_conv')
qed

lemma plan_steps_assign:
  "plan_steps (assign_transaction_id pj tid) = plan_steps pj"
  by (simp add: plan_steps_def assign_transaction_id_def get_set_other split: option.splits)

text \<open>
  Claim C4. For a plan object whose step array (\<^verbatim>\<open>steps\<close>, or \<^verbatim>\<open>actions\<close> when \<^verbatim>\<open>steps\<close> is
  absent or falsy) has one to ten steps, each with an allowed action and parameters that
  are an object, \<^verbatim>\<open>validatePlan\<close> returns valid with the plan, whose transaction
  identifier is not null: the one it had, or the generated one when it had none. When
  the step array is empty or has more than ten steps, \<^verbatim>\<open>validatePlan\<close> returns invalid
  with no plan, and the handler of the chatbot's answer reports the validation error and
  returns with the state and the browser as they were, no step having been run.
\<close>

theorem validatePlan_step_count:
  assumes ps: "plan_steps pj = Some (JArr ss)"
  shows "(1 \<le> length ss \<and> length ss \<le> 10 \<and> (\<forall>st \<in> set ss. step_ok st) \<longrightarrow>
           (\<exists>p. validatePlan uuid (Some pj) = Inr \<lparr>valid = True, errors = [], vplan = Some p\<rparr>
              \<and> get_prop p ''steps'' = Some (JArr ss)
              \<and> get_prop p ''transaction_id'' \<noteq> None
              \<and> get_prop p ''transaction_id'' \<noteq> Some JNull
              \<and> get_prop p ''transaction_id'' =
                  (if truthy (get_prop pj ''transaction_id'') then get_prop pj ''transaction_id''
                   else Some (JStr uuid))))
       \<and> (length ss = 0 \<or> 10 < length ss \<longrightarrow>
            validatePlan uuid (Some pj) =
              Inr \<lparr>valid = False,
                   errors = [if 10 < length ss then TooManySteps (length ss) else NoSteps],
                   vplan = None\<rparr>
          \<and> handleChatbotResponse R I uuid (Some pj) tid (s, w) =
              (s, w, [AddLog (L_chatbot_response tid), BroadcastToPopup P_chatbot_raw,
                      AddLog (L_validation_errors
                        [if 10 < length ss then TooManySteps (length ss) else NoSteps]),
                      SendToDesktop (D_status_error_validation tid
                        [if 10 < length ss then TooManySteps (length ss) else NoSteps]),
                      BroadcastToPopup (P_execution_error_validation
                        [if 10 < length ss then TooManySteps (length ss) else NoSteps])]))"
proof -
  obtain kvs where pj: "pj = JObj kvs" using plan_steps_obj [OF ps] by blast
  have good: "\<exists>p. validatePlan uuid (Some pj) = Inr \<lparr>valid = True, errors = [], vplan = Some p\<rparr>
              \<and> get_prop p ''steps'' = Some (JArr ss)
              \<and> get_prop p ''transaction_id'' \<noteq> None
              \<and> get_prop p ''transaction_id'' \<noteq> Some JNull
              \<and> get_prop p ''transaction_id'' =
                  (if truthy (get_prop pj ''transaction_id'') then get_prop pj ''transaction_id''
                   else Some (JStr uuid))"
    if h: "1 \<le> length ss \<and> length ss \<le> 10 \<and> (\<forall>st \<in> set ss. step_ok st)"
  proof -
    have nn: "JNull \<notin> set ss" using h step_ok_not_null by blast
    have noerr: "all_step_errors 0 ss = []" using h all_step_errors_empty [of 0 ss] by simp
    have v: "validatePlan uuid (Some pj)
               = Inr \<lparr>valid = True, errors = [], vplan = Some (stamped uuid pj ss)\<rparr>"
      using validatePlan_steps [OF ps nn, of uuid] h noerr by simp
    have t: "get_prop (stamped uuid pj ss) ''transaction_id'' =
                  (if truthy (get_prop pj ''transaction_id'') then get_prop pj ''transaction_id''
                   else Some (JStr uuid))"
      using stamped_transaction_id [OF ps] .
    have nonnull: "get_prop (stamped uuid pj ss) ''transaction_id'' \<noteq> None
              \<and> get_prop (stamped uuid pj ss) ''transaction_id'' \<noteq> Some JNull"
      using t truthy_not_null [of "get_prop pj ''transaction_id''"] by auto
    show ?thesis
      using v stamped_steps [OF ps, of uuid] t nonnull
      by (intro exI [of _ "stamped uuid pj ss"]) simp
  qed
  have bad: "validatePlan uuid (Some pj) =
              Inr \<lparr>valid = False,
                   errors = [if 10 < length ss then TooManySteps (length ss) else NoSteps],
                   vplan = None\<rparr>
          \<and> handleChatbotResponse R I uuid (Some pj) tid (s, w) =
              (s, w, [AddLog (L_chatbot_response tid), BroadcastToPopup P_chatbot_raw,
                      AddLog (L_validation_errors
                        [if 10 < length ss then TooManySteps (length ss) else NoSteps]),
                      SendToDesktop (D_status_error_validation tid
                        [if 10 < length ss then TooManySteps (length ss) else NoSteps]),
                      BroadcastToPopup (P_execution_error_validation
                        [if 10 < length ss then TooManySteps (length ss) else NoSteps])])"
    if h: "length ss = 0 \<or> 10 < length ss"
  proof -
    have v: "validatePlan uuid (Some pj) =
              Inr \<lparr>valid = False,
                   errors = [if 10 < length ss then TooManySteps (length ss) else NoSteps],
                   vplan = None\<rparr>"
      using validatePlan_bad_length [OF ps h] .
    have ps': "plan_steps (assign_transaction_id pj tid) = Some (JArr ss)"
      using ps by (simp add: plan_steps_assign)
    have v': "validatePlan uuid (Some (assign_transaction_id pj tid)) =
              Inr \<lparr>valid = False,
                   errors = [if 10 < length ss then TooManySteps (length ss) else NoSteps],
                   vplan = None\<rparr>"
      using validatePlan_bad_length [OF ps' h] .
    have tp: "truthy (Some pj)" using pj by simp
    show ?thesis using v pipeline_invalid [OF tp v', of R I s w] by simp
  qed
  from good bad show ?thesis by blast
qed

theorem validatePlan_step_count_witness:
  "(\<exists>p. validatePlan ''u'' (Some actions_plan) = Inr \<lparr>valid = True, errors = [], vplan = Some p\<rparr>
        \<and> get_prop p ''transaction_id'' = Some (JStr ''u''))
   \<and> validatePlan ''u'' (Some empty_plan) = Inr \<lparr>valid = False, errors = [NoSteps], vplan = None\<rparr>
   \<and> validatePlan ''u'' (Some long_plan) = Inr \<lparr>valid = False, errors = [TooManySteps 11], vplan = None\<rparr>
   \<and> handleChatbotResponse idle_runner no_interference ''u'' (Some long_plan) (Some ''t1'') (initial_state, ())
       = (initial_state, (),
          [AddLog (L_chatbot_response (Some ''t1'')), BroadcastToPopup P_chatbot_raw,
           AddLog (L_validation_errors [TooManySteps 11]),
           SendToDesktop (D_status_error_validation (Some ''t1'') [TooManySteps 11]),
           BroadcastToPopup (P_execution_error_validation [TooManySteps 11])])"
proof -
  let ?a = "[JObj [(''action'', JStr ''open_url''), (''params'', JObj [(''url'', JStr ''https://example.org/'')])],
         JObj [(''action'', JStr ''wait''), (''params'', JObj [(''ms'', JNum 500)])]]"
  let ?l = "replicate 11 (JObj [(''action'', JStr ''wait''), (''params'', JObj [(''ms'', JNum 1)])])"
  have pa: "plan_steps actions_plan = Some (JArr ?a)"
    by (simp add: plan_steps_def actions_plan_def)
  have oka: "1 \<le> length ?a \<and> length ?a \<le> 10 \<and> (\<forall>st \<in> set ?a. step_ok st)"
    by (simp add: step_ok_def ALLOWED_ACTIONS_def)
  have ta: "\<not> truthy (get_prop actions_plan ''transaction_id'')"
    by (simp add: actions_plan_def)
  have pe: "plan_steps empty_plan = Some (JArr [])"
    by (simp add: plan_steps_def empty_plan_def)
  have pl: "plan_steps long_plan = Some (JArr ?l)"
    by (simp add: plan_steps_def long_plan_def)
  have ll: "length ?l = 11" by simp
  have g1: "\<exists>p. validatePlan ''u'' (Some actions_plan) = Inr \<lparr>valid = True, errors = [], vplan = Some p\<rparr>
        \<and> get_prop p ''transaction_id'' = Some (JStr ''u'')"
    using validatePlan_step_count [OF pa, of "''u''" idle_runner no_interference None initial_state "()"]
          oka ta by auto
  have g2: "validatePlan ''u'' (Some empty_plan) = Inr \<lparr>valid = False, errors = [NoSteps], vplan = None\<rparr>"
    using validatePlan_step_count [OF pe, of "''u''" idle_runner no_interference None initial_state "()"]
    by simp
  have g3: "validatePlan ''u'' (Some long_plan) = Inr \<lparr>valid = False, errors = [TooManySteps 11], vplan = None\<rparr>
   \<and> handleChatbotResponse idle_runner no_interference ''u'' (Some long_plan) (Some ''t1'') (initial_state, ())
       = (initial_state, (),
          [AddLog (L_chatbot_response (Some ''t1'')), BroadcastToPopup P_chatbot_raw,
           AddLog (L_validation_errors [TooManySteps 11]),
           SendToDesktop (D_status_error_validation (Some ''t1'') [TooManySteps 11]),
           BroadcastToPopup (P_execution_error_validation [TooManySteps 11])])"
    using validatePlan_step_count [OF pl, of "''u''" idle_runner no_interference "Some ''t1''" initial_state "()"]
    unfolding ll by simp
  from g1 g2 g3 show ?thesis by blast
qed

text \<open>
  Claim C10, at the plan \<^verbatim>\<open>{"steps": [{"action": "fly", "params": {}}, null]}\<close>: its step
  array has two elements, yet \<^verbatim>\<open>validatePlan\<close> returns no error list. Reading
  \<^verbatim>\<open>step.action\<close> of the \<^verbatim>\<open>null\<close> step throws a TypeError, which nothing catches; the
  error of the first step is lost with it, and the handler of the chatbot's answer ends
  without reporting anything.
\<close>

theorem validatePlan_null_step_throws:
  "validatePlan ''u'' (Some null_step_plan) = Inl TypeError
   \<and> handleChatbotResponse idle_runner no_interference ''u'' (Some null_step_plan) (Some ''t1'')
        (initial_state, ())
      = (initial_state, (),
         [AddLog (L_chatbot_response (Some ''t1'')), BroadcastToPopup P_chatbot_raw,
          Uncaught TypeError])"
  by code_simp

theorem validatePlan_null_step_throws_witness:
  "plan_steps null_step_plan
     = Some (JArr [JObj [(''action'', JStr ''fly''), (''params'', JObj [])], JNull])
   \<and> validatePlan ''u'' (Some null_step_plan) = Inl TypeError
   \<and> (\<exists>v. validatePlan ''u'' (Some null_step_plan) = Inr v) = False"
  using validatePlan_null_step_throws by (simp add: plan_steps_def null_step_plan_def)

lemma all_step_errors_mem:
  "(e \<in> set (all_step_errors i ss)) = (\<exists>j < length ss. e \<in> set (step_errors (i + j) (ss ! j)))"
proof (induction ss arbitrary: i)
  case Nil
  then show ?case by simp
next
  case (Cons st rest)
  have "(\<exists>j < length (st # rest). e \<in> set (step_errors (i + j) ((st # rest) ! j)))
      = (e \<in> set (step_errors i st) \<or> (\<exists>j < length rest. e \<in> set (step_errors (Suc i + j) (rest ! j))))"
    (is "?L = ?R")
  proof
    assume ?L
    then obtain j where j: "j < length (st # rest)" "e \<in> set (step_errors (i + j) ((st # rest) ! j))"
      by blast
    show ?R
    proof (cases j)
      case 0
      then show ?thesis using j by simp
    next
      case (Suc j')
      then have "j' < length rest" "e \<in> set (step_errors (Suc i + j') (rest ! j'))" using j by simp_all
      then show ?thesis by blast
    qed
  next
    assume ?R
    then consider (a) "e \<in> set (step_errors i st)"
      | (b) "\<exists>j < length rest. e \<in> set (step_errors (Suc i + j) (rest ! j))" by blast
    then show ?L
    proof cases
      case a
      then have "0 < length (st # rest)" "e \<in> set (step_errors (i + 0) ((st # rest) ! 0))" by simp_all
      then show ?thesis by blast
    next
      case b
      then obtain j where "Suc j < length (st # rest)"
        "e \<in> set (step_errors (i + Suc j) ((st # rest) ! Suc j))" by auto
      then show ?thesis by blast
    qed
  qed
  then show ?case using Cons.IH [of "Suc i"] by simp
qed

lemma step_errors_number: "e \<in> set (step_errors i st) \<Longrightarrow> error_step e = Some (i + 1)"
  by (auto simp: step_errors_def split: if_splits)

text \<open>
  What \<^verbatim>\<open>validatePlan\<close> does return when no step is \<^verbatim>\<open>null\<close>: for one to ten steps, the
  errors of all steps in step order, so that a step is named by an error exactly when
  its action is missing or not allowed or its parameters are not an object.
\<close>

lemma validatePlan_reports_every_step:
  assumes ps: "plan_steps pj = Some (JArr ss)" and nn: "JNull \<notin> set ss"
    and l1: "1 \<le> length ss" and l2: "length ss \<le> 10"
  shows "\<exists>v. validatePlan uuid (Some pj) = Inr v \<and> errors v = all_step_errors 0 ss
     \<and> valid v = (errors v = [])
     \<and> (\<forall>i < length ss. (\<exists>e \<in> set (errors v). error_step e = Some (i + 1)) = (\<not> step_ok (ss ! i)))"
proof -
  let ?v = "\<lparr>valid = (all_step_errors 0 ss = []), errors = all_step_errors 0 ss,
          vplan = (if all_step_errors 0 ss = [] then Some (stamped uuid pj ss) else None)\<rparr>"
  have v: "validatePlan uuid (Some pj) = Inr ?v" using validatePlan_steps [OF ps nn l1 l2] .
  have each: "\<forall>i < length ss. (\<exists>e \<in> set (all_step_errors 0 ss). error_step e = Some (i + 1))
                 = (\<not> step_ok (ss ! i))"
  proof (intro allI impI)
    fix i assume i: "i < length ss"
    show "(\<exists>e \<in> set (all_step_errors 0 ss). error_step e = Some (i + 1)) = (\<not> step_ok (ss ! i))"
    proof
      assume "\<exists>e \<in> set (all_step_errors 0 ss). error_step e = Some (i + 1)"
      then obtain e j where e: "error_step e = Some (i + 1)" "j < length ss"
        "e \<in> set (step_errors (0 + j) (ss ! j))" using all_step_errors_mem [of _ 0 ss] by blast
      then have "j = i" using step_errors_number [OF e(3)] by simp
      then have "step_errors i (ss ! i) \<noteq> []" using e(3) by auto
      then show "\<not> step_ok (ss ! i)" using step_errors_empty [of i "ss ! i"] by simp
    next
      assume "\<not> step_ok (ss ! i)"
      then have "step_errors i (ss ! i) \<noteq> []" using step_errors_empty [of i "ss ! i"] by simp
      then obtain e where e: "e \<in> set (step_errors i (ss ! i))" by (cases "step_errors i (ss ! i)") auto
      then have "e \<in> set (all_step_errors 0 ss)" using all_step_errors_mem [of e 0 ss] i by auto
      then show "\<exists>e \<in> set (all_step_errors 0 ss). error_step e = Some (i + 1)"
        using step_errors_number [OF e] by blast
    qed
  qed
  show ?thesis using v each by (intro exI [of _ ?v]) simp
qed

section \<open>The cooldown of a rule\<close>

text \<open>
  Claim C6, at a rule for the category \<^verbatim>\<open>social\<close>: it fires on a first visit at time
  \<open>t\<close>, goes inactive on a visit elsewhere one hundred seconds later, and fires again on a
  matching visit one second after that, although only one second, not thirty, has passed
  since it went inactive. The thirty seconds are counted from \<^verbatim>\<open>lastTriggered\<close>, the time
  of the last firing, which going inactive does not touch.
\<close>

theorem cooldown_counts_from_last_trigger:
  "snd (checkRulesAgainstUrl ''https://www.youtube.com/'' ''social'' 1700000101000
          (observe_all revisit (fst (handleRegisterTriggers (Some [social_rule]) initial_state))))
     = [AddLog (L_rule_triggered ''r1''), SendToDesktop (D_rule_triggered ''r1'')]
   \<and> triggeredRulesState
        (observe_all revisit (fst (handleRegisterTriggers (Some [social_rule]) initial_state)))
     = [(''r1'', \<lparr>active = False, lastTriggered = 1700000000000\<rparr>)]
   \<and> snd (checkRulesAgainstUrl ''https://example.org/'' ''other'' 1700000100000
          (observe_all (take 1 revisit) (fst (handleRegisterTriggers (Some [social_rule]) initial_state))))
     = [AddLog (L_rule_inactive ''r1'')]
   \<and> 1700000101000 - 1700000100000 < RULE_COOLDOWN_MS"
  by code_simp

theorem cooldown_counts_from_last_trigger_witness:
  "SendToDesktop (D_rule_triggered ''r1'')
     \<in> set (snd (checkRulesAgainstUrl ''https://www.youtube.com/'' ''social'' 1700000101000
          (observe_all revisit (fst (handleRegisterTriggers (Some [social_rule]) initial_state)))))
   \<and> map_of (triggeredRulesState
        (observe_all revisit (fst (handleRegisterTriggers (Some [social_rule]) initial_state)))) ''r1''
     = Some \<lparr>active = False, lastTriggered = 1700000000000\<rparr>"
  using cooldown_counts_from_last_trigger by simp

text \<open>
  What \<^verbatim>\<open>checkRulesAgainstUrl\<close> does with a single registered rule: the first match fires
  and records the time; a match while active does nothing; a match while inactive fires
  when thirty seconds have passed since the recorded time of the last firing, and is
  skipped otherwise; no match makes the rule inactive and leaves the recorded time as it
  is.
\<close>

lemma single_rule_transitions:
  assumes r: "registeredRules s = [\<lparr>rule_id = rid, criteria = Some c\<rparr>]" and rid: "rid \<noteq> []"
  shows "(rule_matches url category c \<and> triggeredRulesState s = [] \<longrightarrow>
            checkRulesAgainstUrl url category now s =
              (s\<lparr>triggeredRulesState := [(rid, \<lparr>active = True, lastTriggered = now\<rparr>)]\<rparr>,
               fireRuleTrigger rid))
     \<and> (rule_matches url category c \<and> triggeredRulesState s = [(rid, \<lparr>active = True, lastTriggered = t\<rparr>)] \<longrightarrow>
            checkRulesAgainstUrl url category now s = (s, []))
     \<and> (rule_matches url category c \<and> triggeredRulesState s = [(rid, \<lparr>active = False, lastTriggered = t\<rparr>)] \<longrightarrow>
            checkRulesAgainstUrl url category now s =
              (if now - t \<ge> RULE_COOLDOWN_MS
               then (s\<lparr>triggeredRulesState := [(rid, \<lparr>active = True, lastTriggered = now\<rparr>)]\<rparr>,
                     fireRuleTrigger rid)
               else (s, [AddLog (L_rule_cooldown rid)])))
     \<and> (\<not> rule_matches url category c \<and> triggeredRulesState s = [(rid, \<lparr>active = a, lastTriggered = t\<rparr>)] \<longrightarrow>
            checkRulesAgainstUrl url category now s =
              (s\<lparr>triggeredRulesState := [(rid, \<lparr>active = False, lastTriggered = t\<rparr>)]\<rparr>,
               if a then [AddLog (L_rule_inactive rid)] else []))"
  using r rid by (auto simp: checkRulesAgainstUrl_def)

end
